theory Spec2Isabelle
  imports Main "HOL-Library.Signed_Division" "HOL-Library.Multiset"
begin

section \<open>Family tree: data model\<close>

text \<open>
  The program keeps every \<open>FamilyMember\<close> it creates with \<open>new\<close> until the tree is
  destroyed. The heap is the list of the objects created so far; a pointer is the index
  of its object in that list, and \<open>NULL\<close> is \<open>None\<close>. A C string is the list of its
  characters before the terminating NUL, so \<open>s[i] != '\0'\<close> reads \<open>i < length s\<close>.
\<close>

type_synonym ptr = nat

definition MAX_NAME :: nat where
  "MAX_NAME = 15"

definition HSPACE :: nat where
  "HSPACE = 6"

record FamilyMember =
  name :: string
  gender :: char
  alive :: bool
  father :: "ptr option"
  mother :: "ptr option"
  firstChild :: "ptr option"
  nextSibling :: "ptr option"

type_synonym heap = "FamilyMember list"

text \<open>
  What a piece of the program does: it returns a value, it reads through a pointer that
  addresses no object, or its loop does not come to an end within the fuel given.
\<close>

datatype 'a outcome = Done 'a | InvalidAccess | OutOfFuel

fun andThen :: "'a outcome \<Rightarrow> ('a \<Rightarrow> 'b outcome) \<Rightarrow> 'b outcome" where
  "andThen (Done x) f = f x"
| "andThen InvalidAccess f = InvalidAccess"
| "andThen OutOfFuel f = OutOfFuel"

definition deref :: "heap \<Rightarrow> ptr \<Rightarrow> FamilyMember outcome" where
  "deref h p = (if p < length h then Done (h ! p) else InvalidAccess)"

subsection \<open>FamilyMember\<close>

text \<open>\<open>copyName\<close>: \<open>while (src[i] != '\0' && i < 63) { name[i] = src[i]; ++i; }\<close>.\<close>

fun copyName_loop :: "nat \<Rightarrow> string \<Rightarrow> string" where
  "copyName_loop i [] = []"
| "copyName_loop i (c # cs) = (if i < 63 then c # copyName_loop (Suc i) cs else [])"

definition copyName :: "string \<Rightarrow> string" where
  "copyName src = copyName_loop 0 src"

text \<open>The constructor \<open>FamilyMember(n, g, isAlive)\<close>.\<close>

definition FamilyMember_ctor :: "string \<Rightarrow> char \<Rightarrow> bool \<Rightarrow> FamilyMember" where
  "FamilyMember_ctor n g isAlive =
     \<lparr> name = copyName n,
       gender = (if g = CHR ''M'' \<or> g = CHR ''m'' then CHR ''M'' else CHR ''F''),
       alive = isAlive,
       father = None, mother = None, firstChild = None, nextSibling = None \<rparr>"

subsection \<open>FamilyPair\<close>

text \<open>
  The children array with \<open>childCount\<close> and \<open>childCap\<close> is the list of the entries in
  use; \<open>ensureCap\<close> only moves them to a larger array. The \<open>next\<close> link makes a list of
  pairs, modelled as a list.
\<close>

record FamilyPair =
  pair_father :: "ptr option"
  pair_mother :: "ptr option"
  children :: "ptr list"

definition FamilyPair_ctor :: "ptr option \<Rightarrow> ptr option \<Rightarrow> FamilyPair" where
  "FamilyPair_ctor f m = \<lparr> pair_father = f, pair_mother = m, children = [] \<rparr>"

fun pair_addChild :: "FamilyPair \<Rightarrow> ptr option \<Rightarrow> FamilyPair" where
  "pair_addChild p None = p"
| "pair_addChild p (Some c) = p\<lparr> children := children p @ [c] \<rparr>"

definition getChildCount :: "FamilyPair \<Rightarrow> int" where
  "getChildCount p = int (length (children p))"

definition getChild :: "FamilyPair \<Rightarrow> int \<Rightarrow> ptr option" where
  "getChild p i =
     (if i \<ge> 0 \<and> i < getChildCount p then Some (children p ! nat i) else None)"

text \<open>
  The truncation loop of \<open>parentLine\<close>:
  \<open>for (; i < MAX_NAME && fn[i] != '\0'; ++i) tf[i] = fn[i];\<close>
\<close>

fun truncate_loop :: "nat \<Rightarrow> string \<Rightarrow> string" where
  "truncate_loop i [] = []"
| "truncate_loop i (c # cs) = (if i < MAX_NAME then c # truncate_loop (Suc i) cs else [])"

text \<open>
  \<open>while (tf[k] != '\0' && p < outSize - 1) out[p++] = tf[k++];\<close> where \<open>p\<close> is the
  length of what \<open>out\<close> holds.
\<close>

fun copy_bounded :: "string \<Rightarrow> string \<Rightarrow> nat \<Rightarrow> string" where
  "copy_bounded out [] outSize = out"
| "copy_bounded out (c # cs) outSize =
     (if length out < outSize - 1 then copy_bounded (out @ [c]) cs outSize else out)"

definition memberName :: "heap \<Rightarrow> ptr option \<Rightarrow> string outcome" where
  "memberName h q =
     (case q of None \<Rightarrow> Done ''Unknown''
      | Some p \<Rightarrow> andThen (deref h p) (\<lambda>m. Done (name m)))"

definition memberGender :: "heap \<Rightarrow> ptr option \<Rightarrow> char \<Rightarrow> char outcome" where
  "memberGender h q dflt =
     (case q of None \<Rightarrow> Done dflt
      | Some p \<Rightarrow> andThen (deref h p) (\<lambda>m. Done (gender m)))"

definition compose_parentLine :: "string \<Rightarrow> char \<Rightarrow> string \<Rightarrow> char \<Rightarrow> nat \<Rightarrow> string" where
  "compose_parentLine tf fg tm mg outSize =
     (let o1 = copy_bounded [] tf outSize;
          o2 = (if length o1 < outSize - 1 then o1 @ [CHR '' '', CHR ''('', fg, CHR '')''] else o1);
          o3 = (if length o2 < outSize - 1 then o2 @ [CHR '' '', CHR ''-'', CHR '' ''] else o2);
          o4 = copy_bounded o3 tm outSize;
          o5 = (if length o4 < outSize - 1 then o4 @ [CHR '' '', CHR ''('', mg, CHR '')''] else o4)
      in if length o5 < outSize then o5 else take (outSize - 1) o5)"

definition parentLine :: "heap \<Rightarrow> FamilyPair \<Rightarrow> nat \<Rightarrow> string outcome" where
  "parentLine h p outSize =
     andThen (memberName h (pair_father p)) (\<lambda>fn.
     andThen (memberName h (pair_mother p)) (\<lambda>mn.
     andThen (memberGender h (pair_father p) (CHR ''M'')) (\<lambda>fg.
     andThen (memberGender h (pair_mother p) (CHR ''F'')) (\<lambda>mg.
       Done (compose_parentLine (truncate_loop 0 fn) fg (truncate_loop 0 mn) mg outSize)))))"

text \<open>
  \<open>childrenLine\<close>: the inner loop
  \<open>while (c < MAX_NAME && cn[c] != '\0' && p < outSize - 1) out[p++] = cn[c++];\<close>
  and the loop over the children with its separator.
\<close>

fun child_copy :: "nat \<Rightarrow> string \<Rightarrow> nat \<Rightarrow> string \<Rightarrow> string" where
  "child_copy c [] outSize out = out"
| "child_copy c (x # xs) outSize out =
     (if c < MAX_NAME \<and> length out < outSize - 1
      then child_copy (Suc c) xs outSize (out @ [x]) else out)"

fun childrenLine_loop :: "heap \<Rightarrow> ptr list \<Rightarrow> nat \<Rightarrow> string \<Rightarrow> string outcome" where
  "childrenLine_loop h [] outSize out = Done out"
| "childrenLine_loop h (c # cs) outSize out =
     andThen (deref h c) (\<lambda>m.
       let o1 = child_copy 0 (name m) outSize out;
           o2 = (if cs \<noteq> [] \<and> length o1 < outSize - 1 then o1 @ [CHR '' ''] else o1)
       in childrenLine_loop h cs outSize o2)"

definition childrenLine :: "heap \<Rightarrow> FamilyPair \<Rightarrow> nat \<Rightarrow> string outcome" where
  "childrenLine h p outSize = childrenLine_loop h (children p) outSize []"

subsection \<open>FamilyTree: the registry\<close>

text \<open>
  \<open>memberPool\<close> with \<open>memCount\<close> and \<open>memCap\<close> is the list of the pointers in use.
  \<open>mem\<close> holds the objects those pointers address.
\<close>

record FamilyTree =
  root :: "ptr option"
  memberPool :: "ptr list"
  mem :: heap

definition FamilyTree_ctor :: FamilyTree where
  "FamilyTree_ctor = \<lparr> root = None, memberPool = [], mem = [] \<rparr>"

definition new_member :: "FamilyTree \<Rightarrow> FamilyMember \<Rightarrow> FamilyTree \<times> ptr" where
  "new_member t m = (t\<lparr> mem := mem t @ [m] \<rparr>, length (mem t))"

definition poolAdd :: "FamilyTree \<Rightarrow> ptr \<Rightarrow> FamilyTree" where
  "poolAdd t m = t\<lparr> memberPool := memberPool t @ [m] \<rparr>"

fun eq_names :: "string \<Rightarrow> string \<Rightarrow> bool" where
  "eq_names [] [] = True"
| "eq_names (x # xs) [] = False"
| "eq_names [] (y # ys) = False"
| "eq_names (x # xs) (y # ys) = (if x \<noteq> y then False else eq_names xs ys)"

fun findByName_loop :: "heap \<Rightarrow> ptr list \<Rightarrow> string \<Rightarrow> ptr option outcome" where
  "findByName_loop h [] nm = Done None"
| "findByName_loop h (p # ps) nm =
     andThen (deref h p) (\<lambda>m.
       if eq_names (name m) nm then Done (Some p) else findByName_loop h ps nm)"

definition findByName :: "FamilyTree \<Rightarrow> string \<Rightarrow> ptr option outcome" where
  "findByName t nm = findByName_loop (mem t) (memberPool t) nm"

text \<open>
  \<open>FamilyMember::addChild\<close>: \<open>t = firstChild; while (t->nextSibling) t = t->nextSibling;\<close>
  runs as long as the chain goes on, so it takes fuel.
\<close>

fun lastSibling :: "nat \<Rightarrow> heap \<Rightarrow> ptr \<Rightarrow> ptr outcome" where
  "lastSibling 0 h t = OutOfFuel"
| "lastSibling (Suc n) h t =
     andThen (deref h t) (\<lambda>m.
       case nextSibling m of None \<Rightarrow> Done t | Some s \<Rightarrow> lastSibling n h s)"

definition member_addChild :: "nat \<Rightarrow> heap \<Rightarrow> ptr \<Rightarrow> ptr option \<Rightarrow> heap outcome" where
  "member_addChild n h this child =
     (case child of None \<Rightarrow> Done h
      | Some c \<Rightarrow>
          andThen (deref h this) (\<lambda>m.
            case firstChild m of
              None \<Rightarrow> Done (h[this := m\<lparr> firstChild := Some c \<rparr>])
            | Some fc \<Rightarrow>
                andThen (lastSibling n h fc) (\<lambda>t.
                andThen (deref h t) (\<lambda>tm.
                  Done (h[t := tm\<lparr> nextSibling := Some c \<rparr>])))))"

definition setFather :: "heap \<Rightarrow> ptr \<Rightarrow> ptr option \<Rightarrow> heap outcome" where
  "setFather h this f = andThen (deref h this) (\<lambda>m. Done (h[this := m\<lparr> father := f \<rparr>]))"

definition setMother :: "heap \<Rightarrow> ptr \<Rightarrow> ptr option \<Rightarrow> heap outcome" where
  "setMother h this f = andThen (deref h this) (\<lambda>m. Done (h[this := m\<lparr> mother := f \<rparr>]))"

definition setAlive :: "heap \<Rightarrow> ptr \<Rightarrow> bool \<Rightarrow> heap outcome" where
  "setAlive h this a = andThen (deref h this) (\<lambda>m. Done (h[this := m\<lparr> alive := a \<rparr>]))"

subsection \<open>The family grouping\<close>

text \<open>
  The scan \<open>while (cur) { if (cf == f && cm == m) { cur->addChild(child); found = true;
  break; } cur = cur->getNext(); }\<close> followed by \<open>if (!found)\<close> appending a new pair at the
  tail. The program has it three times: in \<open>buildFamilyPairsForMembers\<close> and twice in
  \<open>showCenteredTree\<close>.
\<close>

fun place_child :: "FamilyPair list \<Rightarrow> ptr option \<Rightarrow> ptr option \<Rightarrow> ptr \<Rightarrow> FamilyPair list" where
  "place_child [] f m child = [pair_addChild (FamilyPair_ctor f m) (Some child)]"
| "place_child (cur # rest) f m child =
     (if pair_father cur = f \<and> pair_mother cur = m
      then pair_addChild cur (Some child) # rest
      else cur # place_child rest f m child)"

fun buildFamilyPairs_loop :: "heap \<Rightarrow> ptr list \<Rightarrow> FamilyPair list \<Rightarrow> FamilyPair list outcome" where
  "buildFamilyPairs_loop h [] pairs = Done pairs"
| "buildFamilyPairs_loop h (child # rest) pairs =
     andThen (deref h child) (\<lambda>c.
       buildFamilyPairs_loop h rest (place_child pairs (father c) (mother c) child))"

definition buildFamilyPairsForMembers :: "heap \<Rightarrow> ptr list \<Rightarrow> FamilyPair list outcome" where
  "buildFamilyPairsForMembers h members = buildFamilyPairs_loop h members []"

subsection \<open>showCenteredTree\<close>

text \<open>Generation 0: the loop over the pool with its \<open>include\<close> test.\<close>

definition include_test :: "ptr \<Rightarrow> ptr \<Rightarrow> FamilyMember \<Rightarrow> bool" where
  "include_test r ch c =
     ((father c = Some r \<or> mother c = Some r) \<or>
      (father c = None \<and> mother c = None \<and> ch = r))"

fun seed_loop :: "heap \<Rightarrow> ptr \<Rightarrow> ptr list \<Rightarrow> FamilyPair list \<Rightarrow> FamilyPair list outcome" where
  "seed_loop h r [] gen = Done gen"
| "seed_loop h r (ch # rest) gen =
     andThen (deref h ch) (\<lambda>c.
       if \<not> include_test r ch c then seed_loop h r rest gen
       else seed_loop h r rest (place_child gen (father c) (mother c) ch))"

text \<open>The fallback when the loop found nothing.\<close>

definition startGeneration :: "heap \<Rightarrow> ptr \<Rightarrow> ptr list \<Rightarrow> FamilyPair list outcome" where
  "startGeneration h r pool =
     andThen (seed_loop h r pool []) (\<lambda>genHead.
       if genHead = [] then Done [pair_addChild (FamilyPair_ctor None None) (Some r)]
       else Done genHead)"

text \<open>
  The layout of one generation. \<open>fill_arrays\<close> gives, for each pair, its parent line, its
  children line and its width (the arrays \<open>parentLines\<close>, \<open>childLines\<close>, \<open>widths\<close>).
  \<open>maxWidth\<close> and \<open>totalLineWidth\<close> are computed by the program and never used.
\<close>

definition unit_width :: "string \<Rightarrow> string \<Rightarrow> int" where
  "unit_width pl cl =
     (let w = int (length pl); w2 = int (length cl);
          ww = (if w > w2 then w else w2)
      in if ww < 6 then 6 else ww)"

fun fill_arrays :: "heap \<Rightarrow> FamilyPair list \<Rightarrow> (string \<times> string \<times> int) list outcome" where
  "fill_arrays h [] = Done []"
| "fill_arrays h (t # ts) =
     andThen (parentLine h t 256) (\<lambda>pl.
     andThen (childrenLine h t 256) (\<lambda>cl.
     andThen (fill_arrays h ts) (\<lambda>rest.
       Done ((pl, cl, unit_width pl cl) # rest))))"

text \<open>
  One block of the parents row or of the children row:
  \<open>padLeft = (widths[i] - len) / 2\<close> blanks, the text, \<open>widths[i] - padLeft - len\<close> blanks.
  The division of C++ truncates, hence \<open>sdiv\<close>; a loop with a negative bound does not run,
  hence \<open>nat\<close>.
\<close>

definition padLeft_of :: "int \<Rightarrow> string \<Rightarrow> int" where
  "padLeft_of w s = (w - int (length s)) sdiv 2"

definition centered :: "int \<Rightarrow> string \<Rightarrow> string" where
  "centered w s =
     replicate (nat (padLeft_of w s)) (CHR '' '') @ s @
     replicate (nat (w - padLeft_of w s - int (length s))) (CHR '' '')"

fun text_row :: "(int \<times> string) list \<Rightarrow> string" where
  "text_row [] = []"
| "text_row ((w, s) # rest) =
     centered w s @ (if rest \<noteq> [] then replicate HSPACE (CHR '' '') else []) @ text_row rest"

definition connector :: "int \<Rightarrow> string \<Rightarrow> string" where
  "connector w s =
     (let len = int (length s);
          parentCenter = padLeft_of w s + len sdiv 2
      in replicate (nat parentCenter) (CHR '' '') @ [CHR 0xE2, CHR 0x94, CHR 0x82] @
         replicate (nat (w - (parentCenter + 1))) (CHR '' ''))"

fun connector_row :: "(int \<times> string) list \<Rightarrow> string" where
  "connector_row [] = []"
| "connector_row ((w, s) # rest) =
     connector w s @ (if rest \<noteq> [] then replicate HSPACE (CHR '' '') else []) @
     connector_row rest"

definition render_generation :: "heap \<Rightarrow> FamilyPair list \<Rightarrow> string outcome" where
  "render_generation h gen =
     andThen (fill_arrays h gen) (\<lambda>arr.
       Done (text_row (map (\<lambda>(pl, cl, w). (w, pl)) arr) @ ''\<newline>'' @
             connector_row (map (\<lambda>(pl, cl, w). (w, pl)) arr) @ ''\<newline>'' @
             text_row (map (\<lambda>(pl, cl, w). (w, cl)) arr) @ ''\<newline>\<newline>''))"

text \<open>
  The next generation. \<open>childList\<close> collects the children of the pairs without
  duplicates; \<open>getChild(k)\<close> for \<open>k\<close> below the count is the \<open>k\<close>-th entry of the array.
\<close>

fun collect_children :: "ptr list \<Rightarrow> ptr list \<Rightarrow> ptr list" where
  "collect_children [] childList = childList"
| "collect_children (ch # rest) childList =
     collect_children rest (if ch \<in> set childList then childList else childList @ [ch])"

fun collect_pairs :: "FamilyPair list \<Rightarrow> ptr list \<Rightarrow> ptr list" where
  "collect_pairs [] childList = childList"
| "collect_pairs (t # ts) childList = collect_pairs ts (collect_children (children t) childList)"

text \<open>
  \<open>while (cnode) { ... cnode = cnode->getNextSibling(); }\<close> follows the sibling links
  as long as there are any, so it takes fuel.
\<close>

fun chain_loop :: "nat \<Rightarrow> heap \<Rightarrow> ptr option \<Rightarrow> FamilyPair list \<Rightarrow> FamilyPair list outcome" where
  "chain_loop n h None nextGen = Done nextGen"
| "chain_loop 0 h (Some cnode) nextGen = OutOfFuel"
| "chain_loop (Suc n) h (Some cnode) nextGen =
     andThen (deref h cnode) (\<lambda>c.
       chain_loop n h (nextSibling c) (place_child nextGen (father c) (mother c) cnode))"

fun expand_loop :: "nat \<Rightarrow> heap \<Rightarrow> ptr list \<Rightarrow> FamilyPair list \<Rightarrow> FamilyPair list outcome" where
  "expand_loop n h [] nextGen = Done nextGen"
| "expand_loop n h (potentialParent # rest) nextGen =
     andThen (deref h potentialParent) (\<lambda>pp.
       case firstChild pp of
         None \<Rightarrow> expand_loop n h rest nextGen
       | Some fc \<Rightarrow>
           andThen (chain_loop n h (Some fc) nextGen) (\<lambda>nextGen'.
             expand_loop n h rest nextGen'))"

definition nextGeneration :: "nat \<Rightarrow> heap \<Rightarrow> FamilyPair list \<Rightarrow> FamilyPair list outcome" where
  "nextGeneration n h currentGen = expand_loop n h (collect_pairs currentGen []) []"

text \<open>
  \<open>while (currentGen != NULL)\<close>: each round prints the generation and moves to the next
  one. The first number bounds the rounds, the second is the fuel of the sibling loops.
  The result lists the generations in the order they were printed, each with its text.
\<close>

fun walk_loop :: "nat \<Rightarrow> nat \<Rightarrow> heap \<Rightarrow> FamilyPair list \<Rightarrow> (FamilyPair list \<times> string) list outcome" where
  "walk_loop k n h [] = Done []"
| "walk_loop 0 n h (t # ts) = OutOfFuel"
| "walk_loop (Suc k) n h (t # ts) =
     andThen (render_generation h (t # ts)) (\<lambda>txt.
     andThen (nextGeneration n h (t # ts)) (\<lambda>nextGenHead.
     andThen (walk_loop k n h nextGenHead) (\<lambda>later.
       Done ((t # ts, txt) # later))))"

definition showCenteredTree :: "nat \<Rightarrow> FamilyTree \<Rightarrow> ((FamilyPair list \<times> string) list \<times> string) outcome" where
  "showCenteredTree n t =
     (case root t of
        None \<Rightarrow> Done ([], ''No tree. Create root first.\<newline>'')
      | Some r \<Rightarrow>
          andThen (startGeneration (mem t) r (memberPool t)) (\<lambda>currentGen.
          andThen (walk_loop n n (mem t) currentGen) (\<lambda>gens.
            Done (gens,
                  ''\<newline>=== CENTERED FAMILY TREE ===\<newline>\<newline>'' @
                  concat (map snd gens) @
                  ''=== END OF TREE ===\<newline>''))))"

subsection \<open>The interactive operations\<close>

text \<open>
  \<open>readLine\<close>, \<open>readGender\<close>, \<open>readYesNo\<close> and \<open>readYesNoDefaultYes\<close> are the console
  boundary. An operation is given the value each of its reads returns; an answer to a
  question the operation does not come to ask is not looked at. The text an operation
  reports is kept; the prompts, which depend on the keystrokes the read helpers reject,
  are not.
\<close>

record RootAnswers =
  root_name :: string
  root_gender :: char
  root_alive :: bool

definition createRootInteractive :: "FamilyTree \<Rightarrow> RootAnswers \<Rightarrow> FamilyTree \<times> string \<times> bool" where
  "createRootInteractive t a =
     (case root t of
        Some r \<Rightarrow> (t, ''Root already exists.\<newline>'', False)
      | None \<Rightarrow>
          if root_name a = [] then (t, ''Empty name. Aborted.\<newline>'', False)
          else
            let (t1, m) = new_member t (FamilyMember_ctor (root_name a) (root_gender a) (root_alive a))
            in (poolAdd (t1\<lparr> root := Some m \<rparr>) m,
                ''Root '' @ [CHR 0x27] @ root_name a @ [CHR 0x27] @ '' created.\<newline>'', True))"

record ParentAnswers =
  parent_name :: string
  create_now :: bool
  parent_gender :: char
  parent_alive :: bool

record SpouseAnswers =
  spouse_now :: bool
  spouse_name :: string
  spouse_gender :: char
  spouse_alive :: bool

record AddAnswers =
  new_name :: string
  new_gender :: char
  new_alive :: bool
  specify :: bool
  father_ans :: ParentAnswers
  mother_ans :: ParentAnswers
  spouse_ans :: SpouseAnswers

text \<open>
  \<open>new FamilyMember(...)\<close>, \<open>poolAdd\<close> and \<open>root->addChild\<close>: how a parent that was not
  found is created.
\<close>

definition create_under_root ::
  "nat \<Rightarrow> FamilyTree \<Rightarrow> ptr \<Rightarrow> string \<Rightarrow> char \<Rightarrow> bool \<Rightarrow> (FamilyTree \<times> ptr) outcome" where
  "create_under_root n t r nm g a =
     (let (t1, p) = new_member t (FamilyMember_ctor nm g a);
          t2 = poolAdd t1 p
      in andThen (member_addChild n (mem t2) r (Some p)) (\<lambda>h. Done (t2\<lparr> mem := h \<rparr>, p)))"

text \<open>The block that asks for the father, and the same block for the mother.\<close>

definition ask_parent ::
  "nat \<Rightarrow> FamilyTree \<Rightarrow> ptr \<Rightarrow> ParentAnswers \<Rightarrow> string \<Rightarrow> (FamilyTree \<times> ptr option \<times> string) outcome" where
  "ask_parent n t r a created =
     (if parent_name a = [] then Done (t, None, [])
      else
        andThen (findByName t (parent_name a)) (\<lambda>found.
          case found of
            Some p \<Rightarrow> Done (t, Some p, [])
          | None \<Rightarrow>
              if create_now a then
                andThen (create_under_root n t r (parent_name a) (parent_gender a) (parent_alive a))
                  (\<lambda>(t', p). Done (t', Some p, created))
              else Done (t, None, [])))"

text \<open>The block that offers to set the missing parent when the other one is known.\<close>

definition ask_spouse ::
  "nat \<Rightarrow> FamilyTree \<Rightarrow> ptr \<Rightarrow> SpouseAnswers \<Rightarrow> (FamilyTree \<times> ptr option) outcome" where
  "ask_spouse n t r a =
     (if spouse_now a then
        (if spouse_name a \<noteq> [] then
           andThen (findByName t (spouse_name a)) (\<lambda>found.
             case found of
               Some mnode \<Rightarrow> Done (t, Some mnode)
             | None \<Rightarrow>
                 andThen (create_under_root n t r (spouse_name a) (spouse_gender a) (spouse_alive a))
                   (\<lambda>(t', mnode). Done (t', Some mnode)))
         else Done (t, None))
      else Done (t, None))"

definition resolve_parents ::
  "nat \<Rightarrow> FamilyTree \<Rightarrow> ptr \<Rightarrow> AddAnswers \<Rightarrow> (FamilyTree \<times> ptr option \<times> ptr option \<times> string) outcome" where
  "resolve_parents n t r a =
     (if specify a then
        andThen (ask_parent n t r (father_ans a)
                   ''Father created and attached under root for visibility.\<newline>'')
          (\<lambda>(t1, father1, out1).
        andThen (ask_parent n t1 r (mother_ans a)
                   ''Mother created and attached under root for visibility.\<newline>'')
          (\<lambda>(t2, mother2, out2).
            if father1 \<noteq> None \<and> mother2 = None then
              andThen (ask_spouse n t2 r (spouse_ans a)) (\<lambda>(t3, mother3).
                Done (t3, father1, mother3, out1 @ out2))
            else if mother2 \<noteq> None \<and> father1 = None then
              andThen (ask_spouse n t2 r (spouse_ans a)) (\<lambda>(t3, father3).
                Done (t3, father3, mother2, out1 @ out2))
            else Done (t2, father1, mother2, out1 @ out2)))
      else Done (t, None, None, []))"

text \<open>The end of \<open>addMemberInteractive\<close>: the new member is created and linked.\<close>

definition link_member ::
  "nat \<Rightarrow> FamilyTree \<Rightarrow> ptr \<Rightarrow> AddAnswers \<Rightarrow> ptr option \<Rightarrow> ptr option \<Rightarrow> (FamilyTree \<times> string) outcome" where
  "link_member n t r a fa mo =
     (let (t1, nm) = new_member t (FamilyMember_ctor (new_name a) (new_gender a) (new_alive a));
          t2 = poolAdd t1 nm
      in
        andThen (case fa of
                   None \<Rightarrow> Done (mem t2)
                 | Some f \<Rightarrow> andThen (setFather (mem t2) nm (Some f)) (\<lambda>h.
                              member_addChild n h f (Some nm))) (\<lambda>h1.
        andThen (case mo of
                   None \<Rightarrow> Done h1
                 | Some m \<Rightarrow> andThen (setMother h1 nm (Some m)) (\<lambda>h.
                              if fa = None then member_addChild n h m (Some nm) else Done h)) (\<lambda>h2.
        andThen (if fa = None \<and> mo = None
                 then andThen (member_addChild n h2 r (Some nm)) (\<lambda>h.
                        Done (h, ''No parents specified; member attached under root for visibility.\<newline>''))
                 else Done (h2, [])) (\<lambda>(h3, out).
          Done (t2\<lparr> mem := h3 \<rparr>,
                out @ ''Member '' @ [CHR 0x27] @ new_name a @ [CHR 0x27] @ '' added successfully.\<newline>'')))))"

definition addMemberInteractive :: "nat \<Rightarrow> FamilyTree \<Rightarrow> AddAnswers \<Rightarrow> (FamilyTree \<times> string) outcome" where
  "addMemberInteractive n t a =
     (case root t of
        None \<Rightarrow> Done (t, ''Create root first (option 1).\<newline>'')
      | Some r \<Rightarrow>
          if new_name a = [] then Done (t, ''Empty name. Aborted.\<newline>'')
          else
            andThen (findByName t (new_name a)) (\<lambda>found.
              if found \<noteq> None then Done (t, ''Member already exists. Aborted.\<newline>'')
              else
                andThen (resolve_parents n t r a) (\<lambda>(t1, fa, mo, out1).
                andThen (link_member n t1 r a fa mo) (\<lambda>(t2, out2).
                  Done (t2, out1 @ out2)))))"

record LateAnswers =
  late_name :: string
  late_confirm :: bool

definition markLateInteractive :: "FamilyTree \<Rightarrow> LateAnswers \<Rightarrow> (FamilyTree \<times> string) outcome" where
  "markLateInteractive t a =
     (case root t of
        None \<Rightarrow> Done (t, ''No tree exists.\<newline>'')
      | Some r \<Rightarrow>
          if late_name a = [] then Done (t, ''Empty name.\<newline>'')
          else
            andThen (findByName t (late_name a)) (\<lambda>found.
              case found of
                None \<Rightarrow> Done (t, ''Member not found.\<newline>'')
              | Some m \<Rightarrow>
                  andThen (deref (mem t) m) (\<lambda>fm.
                    if \<not> alive fm then Done (t, ''Already marked Late.\<newline>'')
                    else if late_confirm a then
                      andThen (setAlive (mem t) m False) (\<lambda>h.
                        Done (t\<lparr> mem := h \<rparr>, ''Marked Late.\<newline>''))
                    else Done (t, ''Cancelled.\<newline>''))))"

fun showAllNames_loop :: "heap \<Rightarrow> ptr list \<Rightarrow> string outcome" where
  "showAllNames_loop h [] = Done []"
| "showAllNames_loop h (p # ps) =
     andThen (deref h p) (\<lambda>m.
     andThen (showAllNames_loop h ps) (\<lambda>rest.
       Done (''- '' @ name m @ ''\<newline>'' @ rest)))"

definition showAllNames :: "FamilyTree \<Rightarrow> string outcome" where
  "showAllNames t =
     andThen (showAllNames_loop (mem t) (memberPool t)) (\<lambda>out.
       Done (''\<newline>All members:\<newline>'' @ out))"

subsection \<open>Menu\<close>

text \<open>
  One choice of the menu with the answers given to the operation it starts. \<open>run\<close>
  performs the choices made before the operator leaves with 0.
\<close>

datatype choice =
    CreateRoot RootAnswers
  | AddMember AddAnswers
  | MarkLate LateAnswers
  | ShowTree
  | ListAll
  | InvalidChoice

fun perform :: "nat \<Rightarrow> FamilyTree \<Rightarrow> choice \<Rightarrow> (FamilyTree \<times> string) outcome" where
  "perform n t (CreateRoot a) = (case createRootInteractive t a of (t', out, ok) \<Rightarrow> Done (t', out))"
| "perform n t (AddMember a) = addMemberInteractive n t a"
| "perform n t (MarkLate a) = markLateInteractive t a"
| "perform n t ShowTree = andThen (showCenteredTree n t) (\<lambda>(gens, out). Done (t, out))"
| "perform n t ListAll = andThen (showAllNames t) (\<lambda>out. Done (t, out))"
| "perform n t InvalidChoice = Done (t, ''Invalid choice.\<newline>'')"

fun run_loop :: "nat \<Rightarrow> FamilyTree \<Rightarrow> choice list \<Rightarrow> (FamilyTree \<times> string) outcome" where
  "run_loop n t [] = Done (t, ''Exiting...\<newline>'')"
| "run_loop n t (c # cs) =
     andThen (perform n t c) (\<lambda>(t', out).
     andThen (run_loop n t' cs) (\<lambda>(t'', out'). Done (t'', out @ out')))"

definition run :: "nat \<Rightarrow> choice list \<Rightarrow> (FamilyTree \<times> string) outcome" where
  "run n cs =
     andThen (run_loop n FamilyTree_ctor cs) (\<lambda>(t, out).
       Done (t, ''===== CENTERED FAMILY TREE SYSTEM =====\<newline>'' @ out))"

section \<open>Notions used in the statements\<close>

text \<open>The key of a family unit, and the key under which a member is grouped.\<close>

definition unit_key :: "FamilyPair \<Rightarrow> ptr option \<times> ptr option" where
  "unit_key u = (pair_father u, pair_mother u)"

definition parent_key :: "heap \<Rightarrow> ptr \<Rightarrow> ptr option \<times> ptr option" where
  "parent_key h c = (father (h ! c), mother (h ! c))"

text \<open>The keys of a sequence in the order in which each is met first.\<close>

definition first_seen :: "'a list \<Rightarrow> 'a list" where
  "first_seen ks = rev (remdups (rev ks))"

text \<open>
  The grouping as the specification describes its result: one unit for each key, in the
  order in which the keys are met first, holding the members of that key in the order in
  which they are met.
\<close>

definition unit_for :: "heap \<Rightarrow> ptr list \<Rightarrow> ptr option \<times> ptr option \<Rightarrow> FamilyPair" where
  "unit_for h ms k =
     \<lparr> pair_father = fst k, pair_mother = snd k,
       children = filter (\<lambda>c. parent_key h c = k) ms \<rparr>"

definition units_of :: "heap \<Rightarrow> ptr list \<Rightarrow> FamilyPair list" where
  "units_of h ms = map (unit_for h ms) (first_seen (map (parent_key h) ms))"

text \<open>
  The members that seed generation 0, in the words of the specification: those whose
  father or mother is the root, and the root itself when it has no parents.
\<close>

definition seed_members :: "heap \<Rightarrow> ptr \<Rightarrow> ptr list \<Rightarrow> ptr list" where
  "seed_members h r pool =
     filter (\<lambda>ch. father (h ! ch) = Some r \<or> mother (h ! ch) = Some r \<or>
                   (ch = r \<and> father (h ! r) = None \<and> mother (h ! r) = None)) pool"

text \<open>The unit without parents whose only child is the root.\<close>

definition root_unit :: "ptr \<Rightarrow> FamilyPair" where
  "root_unit r = \<lparr> pair_father = None, pair_mother = None, children = [r] \<rparr>"

text \<open>
  A later heap keeps the genders of an earlier one: the members that were there have the
  gender they had, and every member that was added has the gender \<open>M\<close> or \<open>F\<close>.
\<close>

definition keeps_genders :: "heap \<Rightarrow> heap \<Rightarrow> bool" where
  "keeps_genders h h' =
     (length h \<le> length h' \<and>
      (\<forall>p<length h. gender (h' ! p) = gender (h ! p)) \<and>
      (\<forall>p<length h'. length h \<le> p \<longrightarrow> gender (h' ! p) = CHR ''M'' \<or> gender (h' ! p) = CHR ''F''))"

definition genders_ok :: "heap \<Rightarrow> bool" where
  "genders_ok h = (\<forall>m\<in>set h. gender m = CHR ''M'' \<or> gender m = CHR ''F'')"

text \<open>The registry an operation or a run leaves, when it returns.\<close>

definition tree_after :: "(FamilyTree \<times> string) outcome \<Rightarrow> FamilyTree option" where
  "tree_after res = (case res of Done (t, out) \<Rightarrow> Some t | _ \<Rightarrow> None)"

text \<open>The name as displayed, and names joined by single blanks.\<close>

definition shown :: "heap \<Rightarrow> ptr \<Rightarrow> string" where
  "shown h c = take 15 (name (h ! c))"

fun join_names :: "string list \<Rightarrow> string" where
  "join_names [] = []"
| "join_names [x] = x"
| "join_names (x # y # rest) = x @ CHR '' '' # join_names (y # rest)"

text \<open>
  A registry is closed when every pointer it holds addresses an object: the entries of
  the pool, the root and the four links of every member.
\<close>

definition valid_ptr :: "heap \<Rightarrow> ptr option \<Rightarrow> bool" where
  "valid_ptr h q = (case q of None \<Rightarrow> True | Some p \<Rightarrow> p < length h)"

definition closed_heap :: "heap \<Rightarrow> bool" where
  "closed_heap h =
     list_all (\<lambda>m. valid_ptr h (father m) \<and> valid_ptr h (mother m) \<and>
                    valid_ptr h (firstChild m) \<and> valid_ptr h (nextSibling m)) h"


text \<open>
  The parent/child links of the registry: from a member to its first child and from a
  child to its next sibling.
\<close>

definition links :: "heap \<Rightarrow> (ptr \<times> ptr) set" where
  "links h =
     {(p, q). p < length h \<and> (firstChild (h ! p) = Some q \<or> nextSibling (h ! p) = Some q)}"



text \<open>The children of a member as the sibling loops read them, from the first child on.\<close>

fun sibling_chain :: "nat \<Rightarrow> heap \<Rightarrow> ptr option \<Rightarrow> ptr list outcome" where
  "sibling_chain n h None = Done []"
| "sibling_chain 0 h (Some c) = OutOfFuel"
| "sibling_chain (Suc n) h (Some c) =
     andThen (deref h c) (\<lambda>m.
     andThen (sibling_chain n h (nextSibling m)) (\<lambda>cs. Done (c # cs)))"


text \<open>The generations a walk printed, and the parents visited over the whole walk.\<close>

definition generations_of :: "((FamilyPair list \<times> string) list \<times> string) outcome \<Rightarrow> FamilyPair list list" where
  "generations_of res = (case res of Done (gens, out) \<Rightarrow> map fst gens | _ \<Rightarrow> [])"


section \<open>Example registries\<close>

text \<open>
  The registry after creating the root Carol, adding Dave with father Carol, Eve with
  father Dave, and Bob without parents.
\<close>

definition carol_tree :: FamilyTree where
  "carol_tree =
     \<lparr> root = Some 0, memberPool = [0, 1, 2, 3],
       mem =
         [\<lparr> name = ''Carol'', gender = CHR ''F'', alive = True, father = None,
             mother = None, firstChild = Some 1, nextSibling = None \<rparr>,
          \<lparr> name = ''Dave'', gender = CHR ''M'', alive = True, father = Some 0,
             mother = None, firstChild = Some 2, nextSibling = Some 3 \<rparr>,
          \<lparr> name = ''Eve'', gender = CHR ''F'', alive = True, father = Some 1,
             mother = None, firstChild = None, nextSibling = None \<rparr>,
          \<lparr> name = ''Bob'', gender = CHR ''M'', alive = True, father = None,
             mother = None, firstChild = None, nextSibling = None \<rparr>] \<rparr>"

definition carol_answers :: RootAnswers where
  "carol_answers = \<lparr> root_name = ''Carol'', root_gender = CHR ''f'', root_alive = True \<rparr>"

definition nobody :: ParentAnswers where
  "nobody = \<lparr> parent_name = [], create_now = False, parent_gender = CHR ''M'', parent_alive = True \<rparr>"

definition no_spouse :: SpouseAnswers where
  "no_spouse = \<lparr> spouse_now = False, spouse_name = [], spouse_gender = CHR ''F'', spouse_alive = True \<rparr>"

definition dave_answers :: AddAnswers where
  "dave_answers =
     \<lparr> new_name = ''Dave'', new_gender = CHR ''M'', new_alive = True, specify = True,
       father_ans = nobody\<lparr> parent_name := ''Carol'' \<rparr>, mother_ans = nobody,
       spouse_ans = no_spouse \<rparr>"

definition eve_answers :: AddAnswers where
  "eve_answers =
     \<lparr> new_name = ''Eve'', new_gender = CHR ''F'', new_alive = True, specify = True,
       father_ans = nobody\<lparr> parent_name := ''Dave'' \<rparr>, mother_ans = nobody,
       spouse_ans = no_spouse \<rparr>"

definition bob_answers :: AddAnswers where
  "bob_answers =
     \<lparr> new_name = ''Bob'', new_gender = CHR ''M'', new_alive = True, specify = False,
       father_ans = nobody, mother_ans = nobody, spouse_ans = no_spouse \<rparr>"

text \<open>The registry that holds the root Alice alone.\<close>

definition alice_tree :: FamilyTree where
  "alice_tree =
     \<lparr> root = Some 0, memberPool = [0],
       mem = [\<lparr> name = ''Alice'', gender = CHR ''F'', alive = True, father = None,
                mother = None, firstChild = None, nextSibling = None \<rparr>] \<rparr>"

text \<open>
  A registry whose root has a father on record, which the operations of the program
  never produce: no member passes the test of the seeding loop.
\<close>

definition strange_tree :: FamilyTree where
  "strange_tree =
     \<lparr> root = Some 0, memberPool = [0, 1],
       mem = [\<lparr> name = ''Zed'', gender = CHR ''M'', alive = True, father = Some 1,
                mother = None, firstChild = None, nextSibling = None \<rparr>,
              \<lparr> name = ''Yan'', gender = CHR ''M'', alive = True, father = None,
                mother = None, firstChild = Some 0, nextSibling = None \<rparr>] \<rparr>"

text \<open>The choices that build \<open>carol_tree\<close>, and answers for marking a member late.\<close>

definition carol_choices :: "choice list" where
  "carol_choices =
     [CreateRoot carol_answers, AddMember dave_answers, AddMember eve_answers,
      AddMember bob_answers]"

definition late_dave :: LateAnswers where
  "late_dave = \<lparr> late_name = ''Dave'', late_confirm = True \<rparr>"

definition late_zoe :: LateAnswers where
  "late_zoe = \<lparr> late_name = ''Zoe'', late_confirm = True \<rparr>"

definition dave_late_tree :: FamilyTree where
  "dave_late_tree = carol_tree\<lparr> mem := (mem carol_tree)[1 := (mem carol_tree ! 1)\<lparr> alive := False \<rparr>] \<rparr>"

text \<open>The registry of Carol, Dave and Eve before Bob is added.\<close>

definition before_bob :: FamilyTree where
  "before_bob =
     \<lparr> root = Some 0, memberPool = [0, 1, 2],
       mem =
         [\<lparr> name = ''Carol'', gender = CHR ''F'', alive = True, father = None,
             mother = None, firstChild = Some 1, nextSibling = None \<rparr>,
          \<lparr> name = ''Dave'', gender = CHR ''M'', alive = True, father = Some 0,
             mother = None, firstChild = Some 2, nextSibling = None \<rparr>,
          \<lparr> name = ''Eve'', gender = CHR ''F'', alive = True, father = Some 1,
             mother = None, firstChild = None, nextSibling = None \<rparr>] \<rparr>"

text \<open>The family unit of Carol's child Dave, and a unit of two children.\<close>

definition dave_unit :: FamilyPair where
  "dave_unit = \<lparr> pair_father = Some 0, pair_mother = None, children = [1] \<rparr>"

definition two_unit :: FamilyPair where
  "two_unit = \<lparr> pair_father = None, pair_mother = None, children = [3, 4] \<rparr>"

text \<open>
  A root with seventeen children, each with a name of fifteen characters, and the
  family unit they form.
\<close>

definition crowd_member :: "nat \<Rightarrow> FamilyMember" where
  "crowd_member i =
     \<lparr> name = replicate 14 (CHR ''a'') @ [char_of (97 + i)], gender = CHR ''F'', alive = True,
       father = Some 0, mother = None, firstChild = None,
       nextSibling = (if i < 17 then Some (Suc i) else None) \<rparr>"

definition crowd_heap :: heap where
  "crowd_heap =
     \<lparr> name = ''Root'', gender = CHR ''M'', alive = True, father = None, mother = None,
       firstChild = Some 1, nextSibling = None \<rparr> # map crowd_member [1..<18]"

definition crowd_unit :: FamilyPair where
  "crowd_unit = \<lparr> pair_father = Some 0, pair_mother = None, children = [1..<18] \<rparr>"

section \<open>Basic facts\<close>

lemma andThen_Done_iff: "andThen x f = Done y \<longleftrightarrow> (\<exists>v. x = Done v \<and> f v = Done y)"
  by (cases x) auto

lemma deref_Done_iff: "deref h p = Done m \<longleftrightarrow> p < length h \<and> m = h ! p"
  by (auto simp: deref_def)

lemma deref_valid: "p < length h \<Longrightarrow> deref h p = Done (h ! p)"
  by (simp add: deref_def)

section \<open>Display of names\<close>

lemma truncate_loop_take: "truncate_loop i s = take (MAX_NAME - i) s"
  by (induction i s rule: truncate_loop.induct) (auto simp: take_Cons' MAX_NAME_def)

lemma copy_bounded_take: "copy_bounded out s sz = out @ take (sz - 1 - length out) s"
  by (induction out s sz rule: copy_bounded.induct) (auto simp: take_Cons')

lemma child_copy_take:
  "child_copy c s sz out = out @ take (min (MAX_NAME - c) (sz - 1 - length out)) s"
  by (induction c s sz out rule: child_copy.induct) (auto simp: take_Cons' MAX_NAME_def min_def)

lemma compose_parentLine_256:
  "length tf \<le> 15 \<Longrightarrow> length tm \<le> 15 \<Longrightarrow>
   compose_parentLine tf fg tm mg 256 =
     tf @ [CHR '' '', CHR ''('', fg, CHR '')''] @ [CHR '' '', CHR ''-'', CHR '' ''] @
     tm @ [CHR '' '', CHR ''('', mg, CHR '')'']"
  by (simp add: compose_parentLine_def copy_bounded_take Let_def)

lemma take_take_append: "take n (take n xs @ ys) = take n (xs @ ys)"
  by (cases "length xs \<le> n") (auto simp: min_def)

lemma join_names_Cons:
  "join_names (x # xs) = x @ (if xs = [] then [] else CHR '' '' # join_names xs)"
  by (cases xs) auto

text \<open>
  The children line is what fits into the buffer of the names as displayed, joined by
  single blanks.
\<close>

lemma childrenLine_loop_take:
  "\<forall>c\<in>set cs. c < length h \<Longrightarrow> length out \<le> sz - 1 \<Longrightarrow>
   childrenLine_loop h cs sz out = Done (take (sz - 1) (out @ join_names (map (shown h) cs)))"
proof (induction cs arbitrary: out)
  case Nil
  then show ?case by simp
next
  case (Cons c cs)
  define o1 where "o1 = child_copy 0 (name (h ! c)) sz out"
  define sep where "sep = (if cs = [] then [] else [CHR '' ''])"
  define o2 where "o2 = (if cs \<noteq> [] \<and> length o1 < sz - 1 then o1 @ [CHR '' ''] else o1)"
  define J where "J = join_names (map (shown h) cs)"
  have o1: "o1 = take (sz - 1) (out @ shown h c)"
    using Cons.prems(2) by (simp add: o1_def child_copy_take shown_def MAX_NAME_def min_def take_take)
  have len1: "length o1 \<le> sz - 1" by (simp add: o1)
  have o2: "o2 = take (sz - 1) (o1 @ sep)"
    using len1 by (auto simp: o2_def sep_def)
  have len2: "length o2 \<le> sz - 1" by (simp add: o2)
  have "childrenLine_loop h (c # cs) sz out = childrenLine_loop h cs sz o2"
    using Cons.prems(1) by (simp add: deref_valid o1_def o2_def Let_def)
  also have "\<dots> = Done (take (sz - 1) (o2 @ J))"
    unfolding J_def using Cons.IH[OF _ len2] Cons.prems(1) by simp
  also have "take (sz - 1) (o2 @ J) = take (sz - 1) ((o1 @ sep) @ J)"
    unfolding o2 by (rule take_take_append)
  also have "\<dots> = take (sz - 1) (take (sz - 1) (out @ shown h c) @ (sep @ J))"
    unfolding o1 by simp
  also have "\<dots> = take (sz - 1) ((out @ shown h c) @ (sep @ J))"
    by (rule take_take_append)
  also have "(out @ shown h c) @ (sep @ J) = out @ join_names (map (shown h) (c # cs))"
    by (simp add: join_names_Cons sep_def J_def)
  finally show ?case .
qed

lemma length_join_names_le:
  "\<forall>x\<in>set xs. length x \<le> 15 \<Longrightarrow> length (join_names xs) \<le> 16 * length xs - 1"
  by (induction xs rule: join_names.induct) auto

lemma memberName_valid:
  "valid_ptr h q \<Longrightarrow>
   memberName h q = Done (case q of None \<Rightarrow> ''Unknown'' | Some p \<Rightarrow> name (h ! p))"
  by (auto simp: memberName_def valid_ptr_def deref_valid split: option.splits)

lemma memberGender_valid:
  "valid_ptr h q \<Longrightarrow>
   memberGender h q d = Done (case q of None \<Rightarrow> d | Some p \<Rightarrow> gender (h ! p))"
  by (auto simp: memberGender_def valid_ptr_def deref_valid split: option.splits)

lemma parentLine_valid:
  assumes "valid_ptr h (pair_father u)" and "valid_ptr h (pair_mother u)"
  shows "parentLine h u 256 =
     Done (take 15 (case pair_father u of None \<Rightarrow> ''Unknown'' | Some p \<Rightarrow> name (h ! p)) @
           [CHR '' '', CHR ''('',
            (case pair_father u of None \<Rightarrow> CHR ''M'' | Some p \<Rightarrow> gender (h ! p)), CHR '')''] @
           '' - '' @
           take 15 (case pair_mother u of None \<Rightarrow> ''Unknown'' | Some p \<Rightarrow> name (h ! p)) @
           [CHR '' '', CHR ''('',
            (case pair_mother u of None \<Rightarrow> CHR ''F'' | Some p \<Rightarrow> gender (h ! p)), CHR '')''])"
  using assms
  by (simp add: parentLine_def memberName_valid memberGender_valid truncate_loop_take
      MAX_NAME_def compose_parentLine_256)

lemma childrenLine_valid:
  "\<forall>c\<in>set (children u). c < length h \<Longrightarrow>
   childrenLine h u 256 = Done (take 255 (join_names (map (shown h) (children u))))"
  using childrenLine_loop_take[of "children u" h "[]" 256] by (simp add: childrenLine_def)

text \<open>
  Claim C6, as amended. The truncation loop cuts a name to its first 15 characters and
  adds no marker: a longer name gives exactly 15 characters, a name of at most 15
  characters is unchanged. The parent line shows both names cut this way. The children
  line is the first 255 characters of the children's names, each cut this way, joined
  by single blanks; so every child's name is shown cut this way whenever that text fits
  into the 255 characters of the buffer, which it does for up to 16 children.
\<close>

theorem name_truncation:
  "truncate_loop 0 nm = take 15 nm \<and>
   (15 < length nm \<longrightarrow> length (truncate_loop 0 nm) = 15) \<and>
   (length nm \<le> 15 \<longrightarrow> truncate_loop 0 nm = nm) \<and>
   (valid_ptr h (pair_father u) \<and> valid_ptr h (pair_mother u) \<longrightarrow>
      parentLine h u 256 =
        Done (take 15 (case pair_father u of None \<Rightarrow> ''Unknown'' | Some p \<Rightarrow> name (h ! p)) @
              [CHR '' '', CHR ''('',
               (case pair_father u of None \<Rightarrow> CHR ''M'' | Some p \<Rightarrow> gender (h ! p)), CHR '')''] @
              '' - '' @
              take 15 (case pair_mother u of None \<Rightarrow> ''Unknown'' | Some p \<Rightarrow> name (h ! p)) @
              [CHR '' '', CHR ''('',
               (case pair_mother u of None \<Rightarrow> CHR ''F'' | Some p \<Rightarrow> gender (h ! p)), CHR '')''])) \<and>
   ((\<forall>c\<in>set (children u). c < length h) \<longrightarrow>
      childrenLine h u 256 = Done (take 255 (join_names (map (shown h) (children u)))) \<and>
      (length (children u) \<le> 16 \<longrightarrow>
         childrenLine h u 256 = Done (join_names (map (shown h) (children u)))))"
proof -
  have a: "truncate_loop 0 nm = take 15 nm"
    by (simp add: truncate_loop_take MAX_NAME_def)
  have b: "length (join_names (map (shown h) (children u))) \<le> 255"
    if "length (children u) \<le> 16"
  proof -
    have "length (join_names (map (shown h) (children u)))
            \<le> 16 * length (map (shown h) (children u)) - 1"
      by (rule length_join_names_le) (simp add: shown_def)
    with that show ?thesis by simp
  qed
  show ?thesis
    using a b by (simp add: parentLine_valid childrenLine_valid)
qed

theorem name_truncation_witness:
  "truncate_loop 0 ''Bartholomew Fitzgerald'' = ''Bartholomew Fit'' \<and>
   truncate_loop 0 ''Eve'' = ''Eve'' \<and>
   parentLine (mem carol_tree) dave_unit 256 = Done ''Carol (F) - Unknown (F)'' \<and>
   childrenLine (mem carol_tree) dave_unit 256 = Done ''Dave''"
  using name_truncation[of "''Bartholomew Fitzgerald''" "mem carol_tree" dave_unit]
    name_truncation[of "''Eve''" "mem carol_tree" dave_unit]
  by (simp add: carol_tree_def dave_unit_def valid_ptr_def shown_def)

text \<open>
  Claim C6 as stated fails in the children line: for the unit of seventeen children with
  names of fifteen characters the line is not the names joined, since only 255
  characters are kept and the seventeenth name is left out.
\<close>

theorem childrenLine_counterexample:
  "childrenLine crowd_heap crowd_unit 256 \<noteq>
     Done (join_names (map (shown crowd_heap) (children crowd_unit)))"
proof
  assume eq: "childrenLine crowd_heap crowd_unit 256 =
     Done (join_names (map (shown crowd_heap) (children crowd_unit)))"
  have "\<forall>c\<in>set (children crowd_unit). c < length crowd_heap"
    by (simp add: crowd_unit_def crowd_heap_def)
  then have "childrenLine crowd_heap crowd_unit 256 =
     Done (take 255 (join_names (map (shown crowd_heap) (children crowd_unit))))"
    by (rule childrenLine_valid)
  with eq have "length (join_names (map (shown crowd_heap) (children crowd_unit))) \<le> 255"
    by (metis outcome.inject length_take min.cobounded2)
  moreover have "length (join_names (map (shown crowd_heap) (children crowd_unit))) = 271"
    by (simp add: crowd_heap_def crowd_unit_def shown_def crowd_member_def upt_rec)
  ultimately show False by simp
qed

section \<open>Access to the children of a unit\<close>

text \<open>
  Claim C10. For every family unit and every integer \<open>i\<close>, \<open>getChild(i)\<close> returns the
  \<open>i\<close>-th child when \<open>0 \<le> i < childCount\<close>, an index inside the array, and \<open>NULL\<close> for
  every other \<open>i\<close>, negative or not below the count.
\<close>

theorem getChild_total:
  "(0 \<le> i \<and> i < getChildCount u \<longrightarrow>
      nat i < length (children u) \<and> getChild u i = Some (children u ! nat i)) \<and>
   (i < 0 \<or> getChildCount u \<le> i \<longrightarrow> getChild u i = None)"
  by (auto simp: getChild_def getChildCount_def)

theorem getChild_total_witness:
  "getChild two_unit 0 = Some 3 \<and> getChild two_unit 1 = Some 4 \<and>
   getChild two_unit 2 = None \<and> getChild two_unit (- 1) = None"
  using getChild_total[of 0 two_unit] getChild_total[of 1 two_unit]
    getChild_total[of 2 two_unit] getChild_total[of "- 1" two_unit]
  by (simp add: two_unit_def getChildCount_def)

section \<open>The family grouping\<close>

lemma first_seen_snoc:
  "first_seen (ks @ [k]) = (if k \<in> set ks then first_seen ks else first_seen ks @ [k])"
  by (simp add: first_seen_def)

lemma set_first_seen [simp]: "set (first_seen ks) = set ks"
  by (simp add: first_seen_def)

lemma distinct_first_seen [simp]: "distinct (first_seen ks)"
  by (simp add: first_seen_def)

lemma first_seen_Nil [simp]: "first_seen [] = []"
  by (simp add: first_seen_def)

lemma place_child_new:
  "(f, m) \<notin> unit_key ` set us \<Longrightarrow>
   place_child us f m c = us @ [\<lparr> pair_father = f, pair_mother = m, children = [c] \<rparr>]"
  by (induction us) (auto simp: unit_key_def FamilyPair_ctor_def)

lemma place_child_old:
  "distinct (map unit_key us) \<Longrightarrow> (f, m) \<in> unit_key ` set us \<Longrightarrow>
   place_child us f m c =
     map (\<lambda>u. if unit_key u = (f, m) then u\<lparr> children := children u @ [c] \<rparr> else u) us"
proof (induction us)
  case Nil
  then show ?case by simp
next
  case (Cons u us)
  show ?case
  proof (cases "unit_key u = (f, m)")
    case True
    with Cons.prems(1) have "\<forall>v\<in>set us. unit_key v \<noteq> (f, m)" by (auto simp: image_iff)
    then have "map (\<lambda>u. if unit_key u = (f, m) then u\<lparr> children := children u @ [c] \<rparr> else u) us = us"
      by (induction us) auto
    with True show ?thesis by (auto simp: unit_key_def)
  next
    case False
    with Cons show ?thesis by (auto simp: unit_key_def)
  qed
qed

lemma unit_key_unit_for [simp]: "unit_key (unit_for h ms k) = k"
  by (simp add: unit_key_def unit_for_def)

lemma map_unit_key_units_of: "map unit_key (units_of h ms) = first_seen (map (parent_key h) ms)"
  by (simp add: units_of_def comp_def)

lemma place_child_units_of:
  "place_child (units_of h ms) (father (h ! c)) (mother (h ! c)) c = units_of h (ms @ [c])"
proof -
  let ?k = "parent_key h c"
  let ?ks = "first_seen (map (parent_key h) ms)"
  have fm: "(father (h ! c), mother (h ! c)) = ?k" by (simp add: parent_key_def)
  have dist: "distinct (map unit_key (units_of h ms))"
    by (simp add: map_unit_key_units_of)
  have keys: "unit_key ` set (units_of h ms) = parent_key h ` set ms"
    using map_unit_key_units_of[of h ms] by (metis list.set_map set_first_seen)
  show ?thesis
  proof (cases "?k \<in> parent_key h ` set ms")
    case True
    then have "place_child (units_of h ms) (father (h ! c)) (mother (h ! c)) c =
       map (\<lambda>u. if unit_key u = ?k then u\<lparr> children := children u @ [c] \<rparr> else u) (units_of h ms)"
      using place_child_old[OF dist, of "father (h ! c)" "mother (h ! c)" c] keys fm by simp
    also have "\<dots> = map (unit_for h (ms @ [c])) ?ks"
      by (auto simp: units_of_def unit_for_def unit_key_def)
    also have "\<dots> = units_of h (ms @ [c])"
      using True by (simp add: units_of_def first_seen_snoc)
    finally show ?thesis .
  next
    case False
    then have "place_child (units_of h ms) (father (h ! c)) (mother (h ! c)) c =
       units_of h ms @ [\<lparr> pair_father = father (h ! c), pair_mother = mother (h ! c), children = [c] \<rparr>]"
      using place_child_new[of "father (h ! c)" "mother (h ! c)" "units_of h ms" c] keys fm by simp
    also have "\<dots> = map (unit_for h (ms @ [c])) (?ks @ [?k])"
    proof -
      from False have "filter (\<lambda>x. parent_key h x = ?k) ms = []"
        unfolding filter_empty_conv by (metis imageI)
      moreover from False have "map (unit_for h (ms @ [c])) ?ks = map (unit_for h ms) ?ks"
        by (auto simp: unit_for_def)
      ultimately show ?thesis
        by (simp add: units_of_def unit_for_def fm[symmetric])
    qed
    also have "\<dots> = units_of h (ms @ [c])"
      using False by (simp add: units_of_def first_seen_snoc)
    finally show ?thesis .
  qed
qed

lemma buildFamilyPairs_loop_units_of:
  "\<forall>c\<in>set rest. c < length h \<Longrightarrow>
   buildFamilyPairs_loop h rest (units_of h ms) = Done (units_of h (ms @ rest))"
proof (induction rest arbitrary: ms)
  case Nil
  then show ?case by simp
next
  case (Cons c rest)
  then show ?case
    using Cons.IH[of "ms @ [c]"] by (simp add: deref_valid place_child_units_of)
qed

lemma units_of_Nil [simp]: "units_of h [] = []"
  by (simp add: units_of_def)

lemma buildFamilyPairsForMembers_units_of:
  "\<forall>c\<in>set ms. c < length h \<Longrightarrow> buildFamilyPairsForMembers h ms = Done (units_of h ms)"
  using buildFamilyPairs_loop_units_of[of ms h "[]"] by (simp add: buildFamilyPairsForMembers_def)

lemma chain_loop_units_of:
  "sibling_chain n h q = Done cs \<Longrightarrow>
   chain_loop n h q (units_of h ms) = Done (units_of h (ms @ cs))"
proof (induction n h q arbitrary: ms cs rule: sibling_chain.induct)
  case (1 n h)
  then show ?case by simp
next
  case (2 h c)
  then show ?case by simp
next
  case (3 n h c)
  from "3.prems" obtain rest where
    c: "c < length h" and rest: "sibling_chain n h (nextSibling (h ! c)) = Done rest"
    and cs: "cs = c # rest"
    by (auto simp: andThen_Done_iff deref_Done_iff)
  from "3.IH"[OF rest, of "ms @ [c]"] c cs show ?case
    by (simp add: deref_valid place_child_units_of)
qed

lemma seed_loop_units_of:
  "\<forall>c\<in>set pool. c < length h \<Longrightarrow>
   seed_loop h r pool (units_of h ms) =
     Done (units_of h (ms @ filter (\<lambda>ch. include_test r ch (h ! ch)) pool))"
proof (induction pool arbitrary: ms)
  case Nil
  then show ?case by simp
next
  case (Cons c pool)
  then show ?case
    using Cons.IH[of "ms @ [c]"] Cons.IH[of ms]
    by (simp add: deref_valid place_child_units_of)
qed

lemma mset_filter_keys:
  "distinct ks \<Longrightarrow>
   mset (concat (map (\<lambda>k. filter (\<lambda>x. key x = k) xs) ks)) = mset (filter (\<lambda>x. key x \<in> set ks) xs)"
proof (induction ks)
  case Nil
  then show ?case by simp
next
  case (Cons k ks)
  have "mset (filter (\<lambda>x. key x = k) xs) + mset (filter (\<lambda>x. key x \<in> set ks) xs) =
        mset (filter (\<lambda>x. key x = k \<or> key x \<in> set ks) xs)"
    using Cons.prems by (induction xs) auto
  with Cons show ?case by simp
qed

lemma children_units_of:
  "map children (units_of h xs) =
     map (\<lambda>k. filter (\<lambda>x. parent_key h x = k) xs) (first_seen (map (parent_key h) xs))"
  by (simp add: units_of_def unit_for_def comp_def)

lemma mset_children_units_of: "mset (concat (map children (units_of h xs))) = mset xs"
proof -
  have "mset (concat (map children (units_of h xs))) =
        mset (filter (\<lambda>x. parent_key h x \<in> set (first_seen (map (parent_key h) xs))) xs)"
    unfolding children_units_of by (rule mset_filter_keys) simp
  also have "\<dots> = mset xs" by simp
  finally show ?thesis .
qed

lemma units_of_children:
  "u \<in> set (units_of h ms) \<Longrightarrow> children u = filter (\<lambda>x. parent_key h x = unit_key u) ms"
  by (auto simp: units_of_def unit_for_def unit_key_def)

lemma units_of_eq_Nil [simp]: "units_of h ms = [] \<longleftrightarrow> ms = []"
  by (cases ms) (auto simp: units_of_def first_seen_def)

text \<open>
  Claim C1. Grouping a sequence of members into family units goes through the input in
  order and looks up, for each member, the key of its father and mother references among
  the units made so far: a unit with that key gets the member appended to its children,
  otherwise a new unit with that key and this member as its first child is appended at
  the end. So the result is \<open>units_of\<close>: the units come in the order in which their keys
  are met first, and the children of a unit are the members of its key in the order in
  which they are met. The sibling loop of \<open>showCenteredTree\<close> groups the children it
  visits in the same way.
\<close>
theorem grouping_in_encounter_order:
  assumes "\<forall>x\<in>set ms. x < length h" and "c < length h"
  shows "buildFamilyPairsForMembers h ms = Done (units_of h ms) \<and>
         map unit_key (units_of h ms) = first_seen (map (parent_key h) ms) \<and>
         (\<forall>u\<in>set (units_of h ms). children u = filter (\<lambda>x. parent_key h x = unit_key u) ms) \<and>
         buildFamilyPairsForMembers h (ms @ [c]) =
           Done (if parent_key h c \<in> unit_key ` set (units_of h ms)
                 then map (\<lambda>u. if unit_key u = parent_key h c
                                then u\<lparr> children := children u @ [c] \<rparr> else u) (units_of h ms)
                 else units_of h ms @
                      [\<lparr> pair_father = father (h ! c), pair_mother = mother (h ! c), children = [c] \<rparr>]) \<and>
         (\<forall>n q cs. sibling_chain n h q = Done cs \<longrightarrow>
            chain_loop n h q (units_of h ms) = Done (units_of h (ms @ cs)))"
proof -
  have dist: "distinct (map unit_key (units_of h ms))"
    by (simp add: map_unit_key_units_of)
  have step: "units_of h (ms @ [c]) =
           (if parent_key h c \<in> unit_key ` set (units_of h ms)
                 then map (\<lambda>u. if unit_key u = parent_key h c
                                then u\<lparr> children := children u @ [c] \<rparr> else u) (units_of h ms)
                 else units_of h ms @
                      [\<lparr> pair_father = father (h ! c), pair_mother = mother (h ! c), children = [c] \<rparr>])"
    using place_child_units_of[of h ms c, symmetric]
      place_child_old[OF dist, of "father (h ! c)" "mother (h ! c)" c]
      place_child_new[of "father (h ! c)" "mother (h ! c)" "units_of h ms" c]
    by (simp add: parent_key_def)
  have "buildFamilyPairsForMembers h (ms @ [c]) = Done (units_of h (ms @ [c]))"
    using assms by (intro buildFamilyPairsForMembers_units_of) simp
  with step show ?thesis
    using assms(1)
    by (simp add: buildFamilyPairsForMembers_units_of map_unit_key_units_of units_of_children
        chain_loop_units_of)
qed

theorem grouping_in_encounter_order_witness:
  "buildFamilyPairsForMembers (mem carol_tree) [0, 1, 2] =
     Done [\<lparr> pair_father = None, pair_mother = None, children = [0] \<rparr>,
           \<lparr> pair_father = Some 0, pair_mother = None, children = [1] \<rparr>,
           \<lparr> pair_father = Some 1, pair_mother = None, children = [2] \<rparr>] \<and>
   buildFamilyPairsForMembers (mem carol_tree) ([0, 1, 2] @ [3]) =
     Done [\<lparr> pair_father = None, pair_mother = None, children = [0, 3] \<rparr>,
           \<lparr> pair_father = Some 0, pair_mother = None, children = [1] \<rparr>,
           \<lparr> pair_father = Some 1, pair_mother = None, children = [2] \<rparr>]"
  using grouping_in_encounter_order[of "[0, 1, 2]" "mem carol_tree" 3]
  by (simp add: carol_tree_def units_of_def first_seen_def unit_for_def parent_key_def
      unit_key_def)

section \<open>Generation 0\<close>

lemma include_test_seed_members:
  "filter (\<lambda>ch. include_test r ch (h ! ch)) pool = seed_members h r pool"
  unfolding seed_members_def by (rule filter_cong) (auto simp: include_test_def)

lemma seed_loop_seed_members:
  "\<forall>c\<in>set pool. c < length h \<Longrightarrow>
   seed_loop h r pool [] = Done (units_of h (seed_members h r pool))"
  using seed_loop_units_of[of pool h r "[]"] by (simp add: include_test_seed_members)

lemma walk_loop_first:
  "walk_loop k n h g = Done gens \<Longrightarrow> g \<noteq> [] \<Longrightarrow> gens \<noteq> [] \<and> fst (hd gens) = g"
  by (cases k; cases g) (auto simp: andThen_Done_iff)

lemma startGeneration_nonempty:
  "startGeneration h r pool = Done g \<Longrightarrow> g \<noteq> []"
  by (auto simp: startGeneration_def andThen_Done_iff root_unit_def split: if_splits)

lemma showCenteredTree_first:
  "root t = Some r \<Longrightarrow> showCenteredTree n t = Done (gens, out) \<Longrightarrow>
   gens \<noteq> [] \<and> startGeneration (mem t) r (memberPool t) = Done (fst (hd gens))"
  by (auto simp: showCenteredTree_def andThen_Done_iff dest: startGeneration_nonempty walk_loop_first)

text \<open>
  Claim C2. When a root exists, the seeding loop of \<open>showCenteredTree\<close> takes exactly
  the members of the pool whose father or mother is the root, and the root itself when
  it has neither father nor mother, each once, and groups them into family units by
  their father and mother references; when there is any such member these units are the
  first generation printed.
\<close>
theorem generation_zero_seed:
  assumes "root t = Some r" and "\<forall>c\<in>set (memberPool t). c < length (mem t)"
  shows "seed_loop (mem t) r (memberPool t) [] =
           Done (units_of (mem t) (seed_members (mem t) r (memberPool t))) \<and>
         buildFamilyPairsForMembers (mem t) (seed_members (mem t) r (memberPool t)) =
           Done (units_of (mem t) (seed_members (mem t) r (memberPool t))) \<and>
         mset (concat (map children (units_of (mem t) (seed_members (mem t) r (memberPool t))))) =
           mset (seed_members (mem t) r (memberPool t)) \<and>
         (\<forall>n gens out. showCenteredTree n t = Done (gens, out) \<and>
             seed_members (mem t) r (memberPool t) \<noteq> [] \<longrightarrow>
             fst (hd gens) = units_of (mem t) (seed_members (mem t) r (memberPool t)))"
proof -
  let ?seeds = "seed_members (mem t) r (memberPool t)"
  have seed: "seed_loop (mem t) r (memberPool t) [] = Done (units_of (mem t) ?seeds)"
    using assms(2) by (rule seed_loop_seed_members)
  have "\<forall>c\<in>set ?seeds. c < length (mem t)"
    using assms(2) by (simp add: seed_members_def)
  then have build: "buildFamilyPairsForMembers (mem t) ?seeds = Done (units_of (mem t) ?seeds)"
    by (rule buildFamilyPairsForMembers_units_of)
  have start: "startGeneration (mem t) r (memberPool t) = Done (units_of (mem t) ?seeds)"
    if "?seeds \<noteq> []"
    using that by (simp add: startGeneration_def seed)
  have "fst (hd gens) = units_of (mem t) ?seeds"
    if "showCenteredTree n t = Done (gens, out)" "?seeds \<noteq> []" for n gens out
    using showCenteredTree_first[OF assms(1) that(1)] start[OF that(2)] by simp
  moreover note seed build mset_children_units_of[of "mem t" ?seeds]
  ultimately show ?thesis by blast
qed

theorem generation_zero_seed_witness:
  "seed_loop (mem carol_tree) 0 (memberPool carol_tree) [] =
     Done [\<lparr> pair_father = None, pair_mother = None, children = [0] \<rparr>,
           \<lparr> pair_father = Some 0, pair_mother = None, children = [1] \<rparr>] \<and>
   seed_members (mem carol_tree) 0 (memberPool carol_tree) = [0, 1]"
  using generation_zero_seed[of carol_tree 0]
  by (simp add: carol_tree_def seed_members_def units_of_def first_seen_def unit_for_def
      parent_key_def)

lemma filter_eq_single: "r \<in> set xs \<Longrightarrow> distinct xs \<Longrightarrow> filter (\<lambda>x. x = r) xs = [r]"
  by (induction xs) (auto simp: filter_empty_conv)

text \<open>
  Claim C3. When the seeding loop finds no unit, the walk starts from a single unit
  without father and mother whose only child is the root. In the case the specification
  describes (no member of the pool has the root as father or mother, and the root has
  no parents on record) the walk starts from that same unit. So the first generation is
  never empty, and a tree that is shown has at least one generation.
\<close>
theorem fallback_root_unit:
  assumes "root t = Some r" and "\<forall>c\<in>set (memberPool t). c < length (mem t)"
  shows "(seed_loop (mem t) r (memberPool t) [] = Done [] \<longrightarrow>
            startGeneration (mem t) r (memberPool t) = Done [root_unit r]) \<and>
         ((\<forall>c\<in>set (memberPool t). father (mem t ! c) \<noteq> Some r \<and> mother (mem t ! c) \<noteq> Some r) \<and>
          father (mem t ! r) = None \<and> mother (mem t ! r) = None \<and> distinct (memberPool t) \<longrightarrow>
            startGeneration (mem t) r (memberPool t) = Done [root_unit r]) \<and>
         (\<exists>g. startGeneration (mem t) r (memberPool t) = Done g \<and> g \<noteq> []) \<and>
         (\<forall>n gens out. showCenteredTree n t = Done (gens, out) \<longrightarrow> gens \<noteq> [])"
proof -
  let ?h = "mem t" and ?pool = "memberPool t"
  let ?seeds = "seed_members ?h r ?pool"
  have seed: "seed_loop ?h r ?pool [] = Done (units_of ?h ?seeds)"
    using assms(2) by (rule seed_loop_seed_members)
  have a: "startGeneration ?h r ?pool = Done [root_unit r]" if "seed_loop ?h r ?pool [] = Done []"
    using that by (simp add: startGeneration_def root_unit_def FamilyPair_ctor_def)
  have b: "startGeneration ?h r ?pool = Done [root_unit r]"
    if none: "\<forall>c\<in>set ?pool. father (?h ! c) \<noteq> Some r \<and> mother (?h ! c) \<noteq> Some r"
      and orphan: "father (?h ! r) = None" "mother (?h ! r) = None" and dist: "distinct ?pool"
  proof (cases "r \<in> set ?pool")
    case True
    have "?seeds = filter (\<lambda>ch. ch = r) ?pool"
      unfolding seed_members_def using none orphan by (intro filter_cong) auto
    also have "\<dots> = [r]"
      using True dist by (rule filter_eq_single)
    finally have "units_of ?h ?seeds = [root_unit r]"
      using orphan
      by (simp add: units_of_def first_seen_def unit_for_def parent_key_def root_unit_def)
    then show ?thesis by (simp add: startGeneration_def seed)
  next
    case False
    have "?seeds = []"
      unfolding seed_members_def filter_empty_conv using none False by auto
    then show ?thesis using a seed by simp
  qed
  have c: "\<exists>g. startGeneration ?h r ?pool = Done g \<and> g \<noteq> []"
    by (simp add: startGeneration_def seed)
  have d: "gens \<noteq> []" if "showCenteredTree n t = Done (gens, out)" for n gens out
    using showCenteredTree_first[OF assms(1) that] by simp
  from a b c d show ?thesis by blast
qed

theorem fallback_root_unit_witness:
  "seed_loop (mem strange_tree) 0 (memberPool strange_tree) [] = Done [] \<and>
   startGeneration (mem strange_tree) 0 (memberPool strange_tree) = Done [root_unit 0] \<and>
   startGeneration (mem alice_tree) 0 (memberPool alice_tree) = Done [root_unit 0] \<and>
   generations_of (showCenteredTree 2 alice_tree) = [[root_unit 0]]"
proof -
  have s1: "root strange_tree = Some 0" "\<forall>c\<in>set (memberPool strange_tree). c < length (mem strange_tree)"
    by (simp_all add: strange_tree_def)
  have a1: "root alice_tree = Some 0" "\<forall>c\<in>set (memberPool alice_tree). c < length (mem alice_tree)"
    by (simp_all add: alice_tree_def)
  have seed: "seed_loop (mem strange_tree) 0 (memberPool strange_tree) [] = Done []"
    by code_simp
  have cond: "(\<forall>c\<in>set (memberPool alice_tree).
                 father (mem alice_tree ! c) \<noteq> Some 0 \<and> mother (mem alice_tree ! c) \<noteq> Some 0) \<and>
              father (mem alice_tree ! 0) = None \<and> mother (mem alice_tree ! 0) = None \<and>
              distinct (memberPool alice_tree)"
    by (simp add: alice_tree_def)
  have gens: "generations_of (showCenteredTree 2 alice_tree) = [[root_unit 0]]"
    by code_simp
  from fallback_root_unit[OF s1] fallback_root_unit[OF a1] seed cond gens show ?thesis
    by blast
qed

section \<open>Widths and centering\<close>

lemma unit_width_max: "unit_width pl cl = max (max (int (length pl)) (int (length cl))) 6"
  by (simp add: unit_width_def Let_def max_def)

lemma centered_unfold:
  "int (length s) \<le> w \<Longrightarrow>
   centered w s = replicate (nat ((w - int (length s)) div 2)) (CHR '' '') @ s @
                  replicate (nat (w - (w - int (length s)) div 2 - int (length s))) (CHR '' '')"
  by (simp add: centered_def padLeft_of_def signed_divide_int_def sgn_if)

lemma length_centered: "int (length s) \<le> w \<Longrightarrow> int (length (centered w s)) = w"
  by (simp add: centered_unfold) linarith

lemma fill_arrays_nth:
  "fill_arrays h gen = Done arr \<Longrightarrow>
   length arr = length gen \<and>
   (\<forall>i<length gen. \<exists>pl cl. parentLine h (gen ! i) 256 = Done pl \<and>
        childrenLine h (gen ! i) 256 = Done cl \<and> arr ! i = (pl, cl, unit_width pl cl))"
proof (induction gen arbitrary: arr)
  case Nil
  then show ?case by simp
next
  case (Cons u gen)
  from Cons.prems obtain pl cl rest where
    pl: "parentLine h u 256 = Done pl" and cl: "childrenLine h u 256 = Done cl"
    and rest: "fill_arrays h gen = Done rest" and arr: "arr = (pl, cl, unit_width pl cl) # rest"
    by (auto simp: andThen_Done_iff)
  from Cons.IH[OF rest] pl cl arr show ?case
    by (auto simp: nth_Cons')
qed

text \<open>The length of a row is what the program computes as \<open>totalLineWidth\<close>.\<close>

lemma length_text_row:
  "rows \<noteq> [] \<Longrightarrow> \<forall>(w, s)\<in>set rows. int (length s) \<le> w \<Longrightarrow>
   int (length (text_row rows)) = sum_list (map fst rows) + (int (length rows) - 1) * int HSPACE"
proof (induction rows rule: text_row.induct)
  case 1
  then show ?case by simp
next
  case (2 w s rest)
  show ?case
  proof (cases "rest = []")
    case True
    with "2.prems" show ?thesis by (simp add: length_centered)
  next
    case False
    with "2.IH" "2.prems" show ?thesis
      by (simp add: length_centered algebra_simps)
  qed
qed

lemma render_single:
  "parentLine h u 256 = Done pl \<Longrightarrow> childrenLine h u 256 = Done cl \<Longrightarrow>
   render_generation h [u] =
     Done (centered (unit_width pl cl) pl @ ''\<newline>'' @ connector (unit_width pl cl) pl @ ''\<newline>'' @
           centered (unit_width pl cl) cl @ ''\<newline>\<newline>'')"
  by (simp add: render_generation_def)

lemma text_row_nth:
  "i < length rows \<Longrightarrow>
   text_row rows =
     concat (map (\<lambda>(w, s). centered w s @ replicate HSPACE (CHR '' '')) (take i rows)) @
     centered (fst (rows ! i)) (snd (rows ! i)) @
     (if Suc i < length rows then replicate HSPACE (CHR '' '') else []) @
     text_row (drop (Suc i) rows)"
proof (induction rows arbitrary: i rule: text_row.induct)
  case 1
  then show ?case by simp
next
  case (2 w s rest)
  show ?case
  proof (cases i)
    case 0
    then show ?thesis by (cases rest) auto
  next
    case (Suc j)
    with "2.prems" have j: "j < length rest" by simp
    from "2.IH"[OF j] Suc j show ?thesis by auto
  qed
qed

text \<open>
  Claim C5. For every family unit of a generation, its width is the maximum of the
  length of its parent line, the length of its children line and 6; the parent line and
  the children line as printed for that unit, padded on both sides, have exactly that
  length, and the padding on the left is (width - length of the text) div 2 blanks. The
  rows printed are these blocks, with a gap of \<open>HSPACE\<close> blanks after every block but
  the last.
\<close>
theorem unit_width_and_centering:
  assumes "fill_arrays h gen = Done arr" and "i < length gen"
  shows "\<exists>pl cl w. arr ! i = (pl, cl, w) \<and>
           parentLine h (gen ! i) 256 = Done pl \<and> childrenLine h (gen ! i) 256 = Done cl \<and>
           w = max (max (int (length pl)) (int (length cl))) 6 \<and>
           int (length (centered w pl)) = w \<and> int (length (centered w cl)) = w \<and>
           centered w pl =
             replicate (nat ((w - int (length pl)) div 2)) (CHR '' '') @ pl @
             replicate (nat (w - (w - int (length pl)) div 2 - int (length pl))) (CHR '' '') \<and>
           centered w cl =
             replicate (nat ((w - int (length cl)) div 2)) (CHR '' '') @ cl @
             replicate (nat (w - (w - int (length cl)) div 2 - int (length cl))) (CHR '' '') \<and>
           text_row (map (\<lambda>(pl, cl, w). (w, pl)) arr) =
             concat (map (\<lambda>(pl, cl, w). centered w pl @ replicate HSPACE (CHR '' '')) (take i arr)) @
             centered w pl @
             (if Suc i < length arr then replicate HSPACE (CHR '' '') else []) @
             text_row (map (\<lambda>(pl, cl, w). (w, pl)) (drop (Suc i) arr)) \<and>
           text_row (map (\<lambda>(pl, cl, w). (w, cl)) arr) =
             concat (map (\<lambda>(pl, cl, w). centered w cl @ replicate HSPACE (CHR '' '')) (take i arr)) @
             centered w cl @
             (if Suc i < length arr then replicate HSPACE (CHR '' '') else []) @
             text_row (map (\<lambda>(pl, cl, w). (w, cl)) (drop (Suc i) arr))"
proof -
  from fill_arrays_nth[OF assms(1)] assms(2) obtain pl cl where
    *: "parentLine h (gen ! i) 256 = Done pl" "childrenLine h (gen ! i) 256 = Done cl"
       "arr ! i = (pl, cl, unit_width pl cl)" and len: "i < length arr"
    by auto
  define w where "w = unit_width pl cl"
  have le: "int (length pl) \<le> w" "int (length cl) \<le> w"
    by (simp_all add: w_def unit_width_max)
  have r1: "text_row (map (\<lambda>(pl, cl, w). (w, pl)) arr) =
             concat (map (\<lambda>(pl, cl, w). centered w pl @ replicate HSPACE (CHR '' '')) (take i arr)) @
             centered w pl @
             (if Suc i < length arr then replicate HSPACE (CHR '' '') else []) @
             text_row (map (\<lambda>(pl, cl, w). (w, pl)) (drop (Suc i) arr))"
    using text_row_nth[of i "map (\<lambda>(pl, cl, w). (w, pl)) arr"] len *(3)
    by (simp add: take_map drop_map comp_def case_prod_unfold w_def)
  have r2: "text_row (map (\<lambda>(pl, cl, w). (w, cl)) arr) =
             concat (map (\<lambda>(pl, cl, w). centered w cl @ replicate HSPACE (CHR '' '')) (take i arr)) @
             centered w cl @
             (if Suc i < length arr then replicate HSPACE (CHR '' '') else []) @
             text_row (map (\<lambda>(pl, cl, w). (w, cl)) (drop (Suc i) arr))"
    using text_row_nth[of i "map (\<lambda>(pl, cl, w). (w, cl)) arr"] len *(3)
    by (simp add: take_map drop_map comp_def case_prod_unfold w_def)
  show ?thesis
    apply (rule exI[of _ pl], rule exI[of _ cl], rule exI[of _ w])
    using * le r1 r2 unit_width_max[of pl cl] length_centered[of pl w] length_centered[of cl w]
      centered_unfold[of pl w] centered_unfold[of cl w]
    by (simp only: w_def[symmetric] simp_thms)
qed

theorem unit_width_and_centering_witness:
  "fill_arrays (mem carol_tree) [root_unit 0, dave_unit] =
     Done [(''Unknown (M) - Unknown (F)'', ''Carol'', 25), (''Carol (F) - Unknown (F)'', ''Dave'', 23)] \<and>
   centered 23 ''Dave'' = ''         Dave          '' \<and>
   text_row [(25, ''Carol''), (23, ''Dave'')] =
     ''          Carol          '' @ ''      '' @ ''         Dave          ''"
proof -
  have arr: "fill_arrays (mem carol_tree) [root_unit 0, dave_unit] =
     Done [(''Unknown (M) - Unknown (F)'', ''Carol'', 25), (''Carol (F) - Unknown (F)'', ''Dave'', 23)]"
    by code_simp
  have "centered 23 ''Dave'' = replicate (nat ((23 - int (length ''Dave'')) div 2)) (CHR '' '') @ ''Dave'' @
          replicate (nat (23 - (23 - int (length ''Dave'')) div 2 - int (length ''Dave''))) (CHR '' '')"
    using unit_width_and_centering[OF arr, of 1] by simp
  moreover have "text_row [(25, ''Carol''), (23, ''Dave'')] =
     ''          Carol          '' @ ''      '' @ ''         Dave          ''"
    by code_simp
  ultimately show ?thesis using arr by (simp add: eval_nat_numeral)
qed

section \<open>Marking a member late\<close>

lemma eq_names_iff: "eq_names a b \<longleftrightarrow> a = b"
  by (induction a b rule: eq_names.induct) auto

lemma findByName_loop_None:
  "\<forall>p\<in>set pool. p < length h \<Longrightarrow> \<forall>p\<in>set pool. name (h ! p) \<noteq> nm \<Longrightarrow>
   findByName_loop h pool nm = Done None"
  by (induction pool) (auto simp: deref_valid eq_names_iff)

lemma findByName_loop_Some:
  "findByName_loop h pool nm = Done (Some m) \<Longrightarrow>
   m \<in> set pool \<and> m < length h \<and> name (h ! m) = nm"
  by (induction pool) (auto simp: andThen_Done_iff deref_Done_iff eq_names_iff split: if_splits)

lemma findByName_loop_found:
  "\<forall>p\<in>set pool. p < length h \<Longrightarrow> \<exists>p\<in>set pool. name (h ! p) = nm \<Longrightarrow>
   \<exists>m. findByName_loop h pool nm = Done (Some m)"
  by (induction pool) (auto simp: deref_valid eq_names_iff)

lemma setAlive_valid: "m < length h \<Longrightarrow> setAlive h m a = Done (h[m := (h ! m)\<lparr> alive := a \<rparr>])"
  by (simp add: setAlive_def deref_valid)

text \<open>
  Claim C8. Marking a member late, when a root exists and a name is given. If no member
  has the name, the operation reports that the member was not found and leaves the
  registry as it is. If a member has the name, the first such member of the pool is
  found: when it is already late the operation reports so and changes nothing; when it
  is alive and the confirmation is yes, the registry changes in the alive flag of that
  member only, which becomes false; when the confirmation is no, nothing changes.
\<close>
theorem markLate_effects:
  assumes "root t = Some r" and "late_name a \<noteq> []"
    and "\<forall>p\<in>set (memberPool t). p < length (mem t)"
  shows "((\<forall>p\<in>set (memberPool t). name (mem t ! p) \<noteq> late_name a) \<longrightarrow>
            markLateInteractive t a = Done (t, ''Member not found.\<newline>'')) \<and>
         ((\<exists>p\<in>set (memberPool t). name (mem t ! p) = late_name a) \<longrightarrow>
            (\<exists>m. findByName t (late_name a) = Done (Some m) \<and>
                 m \<in> set (memberPool t) \<and> name (mem t ! m) = late_name a \<and>
                 (\<not> alive (mem t ! m) \<longrightarrow>
                    markLateInteractive t a = Done (t, ''Already marked Late.\<newline>'')) \<and>
                 (alive (mem t ! m) \<and> late_confirm a \<longrightarrow>
                    markLateInteractive t a =
                      Done (t\<lparr> mem := (mem t)[m := (mem t ! m)\<lparr> alive := False \<rparr>] \<rparr>,
                            ''Marked Late.\<newline>'')) \<and>
                 (alive (mem t ! m) \<and> \<not> late_confirm a \<longrightarrow>
                    markLateInteractive t a = Done (t, ''Cancelled.\<newline>''))))"
proof (intro conjI impI)
  assume "\<forall>p\<in>set (memberPool t). name (mem t ! p) \<noteq> late_name a"
  with assms(3) have "findByName t (late_name a) = Done None"
    unfolding findByName_def by (rule findByName_loop_None)
  with assms(1,2) show "markLateInteractive t a = Done (t, ''Member not found.\<newline>'')"
    by (simp add: markLateInteractive_def)
next
  assume "\<exists>p\<in>set (memberPool t). name (mem t ! p) = late_name a"
  with assms(3) obtain m where m: "findByName t (late_name a) = Done (Some m)"
    unfolding findByName_def using findByName_loop_found by blast
  then have pm: "m \<in> set (memberPool t)" "m < length (mem t)" "name (mem t ! m) = late_name a"
    unfolding findByName_def by (auto dest: findByName_loop_Some)
  show "\<exists>m. findByName t (late_name a) = Done (Some m) \<and>
                 m \<in> set (memberPool t) \<and> name (mem t ! m) = late_name a \<and>
                 (\<not> alive (mem t ! m) \<longrightarrow>
                    markLateInteractive t a = Done (t, ''Already marked Late.\<newline>'')) \<and>
                 (alive (mem t ! m) \<and> late_confirm a \<longrightarrow>
                    markLateInteractive t a =
                      Done (t\<lparr> mem := (mem t)[m := (mem t ! m)\<lparr> alive := False \<rparr>] \<rparr>,
                            ''Marked Late.\<newline>'')) \<and>
                 (alive (mem t ! m) \<and> \<not> late_confirm a \<longrightarrow>
                    markLateInteractive t a = Done (t, ''Cancelled.\<newline>''))"
    apply (rule exI[of _ m])
    using m pm assms(1,2)
    by (simp add: markLateInteractive_def deref_valid setAlive_valid)
qed

theorem markLate_effects_witness:
  "markLateInteractive carol_tree late_dave = Done (dave_late_tree, ''Marked Late.\<newline>'') \<and>
   markLateInteractive dave_late_tree late_dave = Done (dave_late_tree, ''Already marked Late.\<newline>'') \<and>
   markLateInteractive carol_tree late_zoe = Done (carol_tree, ''Member not found.\<newline>'')"
proof -
  have c: "root carol_tree = Some 0" "\<forall>p\<in>set (memberPool carol_tree). p < length (mem carol_tree)"
    by (simp_all add: carol_tree_def)
  have d: "root dave_late_tree = Some 0"
    "\<forall>p\<in>set (memberPool dave_late_tree). p < length (mem dave_late_tree)"
    by (simp_all add: dave_late_tree_def carol_tree_def)
  have n: "late_name late_dave \<noteq> []" "late_name late_zoe \<noteq> []"
    by (simp_all add: late_dave_def late_zoe_def)
  have e1: "\<exists>p\<in>set (memberPool carol_tree). name (mem carol_tree ! p) = late_name late_dave"
    by (simp add: carol_tree_def late_dave_def)
  have e2: "\<exists>p\<in>set (memberPool dave_late_tree). name (mem dave_late_tree ! p) = late_name late_dave"
    by (simp add: dave_late_tree_def carol_tree_def late_dave_def)
  have e3: "\<forall>p\<in>set (memberPool carol_tree). name (mem carol_tree ! p) \<noteq> late_name late_zoe"
    by (simp add: carol_tree_def late_zoe_def)
  have f1: "findByName carol_tree (late_name late_dave) = Done (Some 1)"
    by code_simp
  have f2: "findByName dave_late_tree (late_name late_dave) = Done (Some 1)"
    by code_simp
  have al: "alive (mem carol_tree ! 1)" "late_confirm late_dave" "\<not> alive (mem dave_late_tree ! 1)"
    by (simp_all add: carol_tree_def dave_late_tree_def late_dave_def)
  from markLate_effects[OF c(1) n(1) c(2)] e1 f1 al
  have 1: "markLateInteractive carol_tree late_dave = Done (dave_late_tree, ''Marked Late.\<newline>'')"
    unfolding dave_late_tree_def by auto
  from markLate_effects[OF d(1) n(1) d(2)] e2 f2 al
  have 2: "markLateInteractive dave_late_tree late_dave = Done (dave_late_tree, ''Already marked Late.\<newline>'')"
    by auto
  from markLate_effects[OF c(1) n(2) c(2)] e3
  have 3: "markLateInteractive carol_tree late_zoe = Done (carol_tree, ''Member not found.\<newline>'')"
    by blast
  from 1 2 3 show ?thesis by simp
qed

section \<open>The gender of a member\<close>

lemma keeps_genders_refl [simp]: "keeps_genders h h"
  by (simp add: keeps_genders_def)

lemma keeps_genders_trans:
  assumes "keeps_genders h h'" and "keeps_genders h' h''"
  shows "keeps_genders h h''"
proof -
  from assms have l: "length h \<le> length h'" "length h' \<le> length h''"
    and g1: "\<And>p. p < length h \<Longrightarrow> gender (h' ! p) = gender (h ! p)"
    and g2: "\<And>p. p < length h' \<Longrightarrow> gender (h'' ! p) = gender (h' ! p)"
    and n1: "\<And>p. p < length h' \<Longrightarrow> length h \<le> p \<Longrightarrow>
               gender (h' ! p) = CHR ''M'' \<or> gender (h' ! p) = CHR ''F''"
    and n2: "\<And>p. p < length h'' \<Longrightarrow> length h' \<le> p \<Longrightarrow>
               gender (h'' ! p) = CHR ''M'' \<or> gender (h'' ! p) = CHR ''F''"
    by (simp_all add: keeps_genders_def)
  have a: "gender (h'' ! p) = gender (h ! p)" if "p < length h" for p
    using that l g1[of p] g2[of p] by simp
  have b: "gender (h'' ! p) = CHR ''M'' \<or> gender (h'' ! p) = CHR ''F''"
    if "p < length h''" "length h \<le> p" for p
  proof (cases "p < length h'")
    case True
    with n1[of p] g2[of p] that show ?thesis by simp
  next
    case False
    with n2[of p] that show ?thesis by simp
  qed
  from l a b show ?thesis by (simp add: keeps_genders_def)
qed

lemma keeps_genders_update:
  "p < length h \<Longrightarrow> gender m = gender (h ! p) \<Longrightarrow> keeps_genders h (h[p := m])"
  by (simp add: keeps_genders_def nth_list_update)

lemma keeps_genders_new: "keeps_genders h (h @ [FamilyMember_ctor nm g a])"
  by (simp add: keeps_genders_def nth_append FamilyMember_ctor_def)

lemma keeps_genders_ok:
  assumes "keeps_genders h h'" and "genders_ok h"
  shows "genders_ok h'"
  unfolding genders_ok_def
proof
  fix m assume "m \<in> set h'"
  then obtain p where p: "p < length h'" "m = h' ! p"
    by (auto simp: in_set_conv_nth)
  show "gender m = CHR ''M'' \<or> gender m = CHR ''F''"
  proof (cases "p < length h")
    case True
    with assms(1) have "gender (h' ! p) = gender (h ! p)" by (simp add: keeps_genders_def)
    moreover from True assms(2) have "gender (h ! p) = CHR ''M'' \<or> gender (h ! p) = CHR ''F''"
      by (simp add: genders_ok_def)
    ultimately show ?thesis using p by simp
  next
    case False
    with assms(1) p show ?thesis by (simp add: keeps_genders_def)
  qed
qed

lemma member_addChild_keeps:
  "member_addChild n h this child = Done h' \<Longrightarrow> keeps_genders h h'"
  by (auto simp: member_addChild_def andThen_Done_iff deref_Done_iff keeps_genders_update
      split: option.splits)

lemma setFather_keeps: "setFather h p f = Done h' \<Longrightarrow> keeps_genders h h'"
  by (auto simp: setFather_def andThen_Done_iff deref_Done_iff keeps_genders_update)

lemma setMother_keeps: "setMother h p f = Done h' \<Longrightarrow> keeps_genders h h'"
  by (auto simp: setMother_def andThen_Done_iff deref_Done_iff keeps_genders_update)

lemma setAlive_keeps: "setAlive h p f = Done h' \<Longrightarrow> keeps_genders h h'"
  by (auto simp: setAlive_def andThen_Done_iff deref_Done_iff keeps_genders_update)

lemma keeps_genders_new_trans:
  "keeps_genders (h @ [FamilyMember_ctor nm g a]) h' \<Longrightarrow> keeps_genders h h'"
  using keeps_genders_new keeps_genders_trans by blast

lemma create_under_root_keeps:
  "create_under_root n t r nm g a = Done (t', p) \<Longrightarrow> keeps_genders (mem t) (mem t')"
  by (auto simp: create_under_root_def new_member_def poolAdd_def andThen_Done_iff
      dest!: member_addChild_keeps keeps_genders_new_trans)

lemma ask_parent_keeps:
  "ask_parent n t r a msg = Done (t', q, out) \<Longrightarrow> keeps_genders (mem t) (mem t')"
  by (auto simp: ask_parent_def andThen_Done_iff split: if_splits option.splits
      dest: create_under_root_keeps)

lemma ask_spouse_keeps:
  "ask_spouse n t r a = Done (t', q) \<Longrightarrow> keeps_genders (mem t) (mem t')"
  by (auto simp: ask_spouse_def andThen_Done_iff split: if_splits option.splits
      dest: create_under_root_keeps)

lemma resolve_parents_keeps:
  assumes "resolve_parents n t r a = Done (t', fa, mo, out)"
  shows "keeps_genders (mem t) (mem t')"
proof (cases "specify a")
  case False
  with assms show ?thesis by (simp add: resolve_parents_def)
next
  case True
  with assms obtain t1 f1 o1 t2 m2 o2 where
    p1: "ask_parent n t r (father_ans a)
           ''Father created and attached under root for visibility.\<newline>'' = Done (t1, f1, o1)"
    and p2: "ask_parent n t1 r (mother_ans a)
           ''Mother created and attached under root for visibility.\<newline>'' = Done (t2, m2, o2)"
    and rest: "(if f1 \<noteq> None \<and> m2 = None then
              andThen (ask_spouse n t2 r (spouse_ans a)) (\<lambda>(t3, mother3).
                Done (t3, f1, mother3, o1 @ o2))
            else if m2 \<noteq> None \<and> f1 = None then
              andThen (ask_spouse n t2 r (spouse_ans a)) (\<lambda>(t3, father3).
                Done (t3, father3, m2, o1 @ o2))
            else Done (t2, f1, m2, o1 @ o2)) = Done (t', fa, mo, out)"
    by (auto simp: resolve_parents_def andThen_Done_iff)
  have k1: "keeps_genders (mem t) (mem t1)" using p1 by (rule ask_parent_keeps)
  have k2: "keeps_genders (mem t1) (mem t2)" using p2 by (rule ask_parent_keeps)
  have k3: "keeps_genders (mem t2) (mem t')"
    using rest by (auto simp: andThen_Done_iff split: if_splits dest: ask_spouse_keeps)
  from k1 k2 k3 show ?thesis by (blast intro: keeps_genders_trans)
qed

lemma link_member_keeps:
  assumes "link_member n t r a fa mo = Done (t', out)"
  shows "keeps_genders (mem t) (mem t')"
proof -
  let ?h0 = "mem t @ [FamilyMember_ctor (new_name a) (new_gender a) (new_alive a)]"
  let ?nm = "length (mem t)"
  define s1 where "s1 = (case fa of None \<Rightarrow> Done ?h0
          | Some f \<Rightarrow> andThen (setFather ?h0 ?nm (Some f)) (\<lambda>h.
                        member_addChild n h f (Some ?nm)))"
  define s2 where "s2 = (\<lambda>h1. case mo of None \<Rightarrow> Done h1
          | Some m \<Rightarrow> andThen (setMother h1 ?nm (Some m)) (\<lambda>h.
                        if fa = None then member_addChild n h m (Some ?nm) else Done h))"
  define s3 where "s3 = (\<lambda>h2. if fa = None \<and> mo = None
              then andThen (member_addChild n h2 r (Some ?nm)) (\<lambda>h.
                     Done (h, ''No parents specified; member attached under root for visibility.\<newline>''))
              else Done (h2, []))"
  have "link_member n t r a fa mo =
          andThen s1 (\<lambda>h1. andThen (s2 h1) (\<lambda>h2. andThen (s3 h2) (\<lambda>(h3, out).
            Done (t\<lparr> mem := ?h0, memberPool := memberPool t @ [?nm], mem := h3 \<rparr>,
                  out @ ''Member '' @ [CHR 0x27] @ new_name a @ [CHR 0x27] @ '' added successfully.\<newline>''))))"
    by (simp add: link_member_def new_member_def poolAdd_def Let_def s1_def s2_def s3_def
        cong: option.case_cong)
  with assms obtain h1 h2 h3 o3 where
    h1: "s1 = Done h1" and h2: "s2 h1 = Done h2" and h3: "s3 h2 = Done (h3, o3)"
    and t': "mem t' = h3"
    by (auto simp: andThen_Done_iff)
  have a: "keeps_genders ?h0 h1"
    using h1 unfolding s1_def
    by (auto simp: andThen_Done_iff split: option.splits
        dest!: setFather_keeps member_addChild_keeps) (blast intro: keeps_genders_trans)
  have b: "keeps_genders h1 h2"
    using h2 unfolding s2_def
    by (auto simp: andThen_Done_iff split: option.splits if_splits
        dest!: setMother_keeps member_addChild_keeps) (blast intro: keeps_genders_trans)
  have c: "keeps_genders h2 h3"
    using h3 unfolding s3_def
    by (auto simp: andThen_Done_iff split: if_splits dest!: member_addChild_keeps)
  from keeps_genders_new[of "mem t"] a b c t' show ?thesis
    by (metis keeps_genders_trans)
qed

lemma addMemberInteractive_keeps:
  assumes "addMemberInteractive n t a = Done (t', out)"
  shows "keeps_genders (mem t) (mem t')"
proof (cases "root t")
  case None
  with assms show ?thesis by (simp add: addMemberInteractive_def)
next
  case (Some r)
  show ?thesis
  proof (cases "t' = t")
    case True
    then show ?thesis by simp
  next
    case False
    with assms Some obtain t1 fa mo o1 o2 where
      "resolve_parents n t r a = Done (t1, fa, mo, o1)"
      "link_member n t1 r a fa mo = Done (t', o2)"
      by (auto simp: addMemberInteractive_def andThen_Done_iff split: if_splits)
    then show ?thesis
      by (blast intro: keeps_genders_trans dest: resolve_parents_keeps link_member_keeps)
  qed
qed

lemma markLateInteractive_keeps:
  "markLateInteractive t a = Done (t', out) \<Longrightarrow> keeps_genders (mem t) (mem t')"
  by (auto simp: markLateInteractive_def andThen_Done_iff split: option.splits if_splits
      dest!: setAlive_keeps)

lemma createRootInteractive_keeps:
  "createRootInteractive t a = (t', out, ok) \<Longrightarrow> keeps_genders (mem t) (mem t')"
  by (auto simp: createRootInteractive_def new_member_def poolAdd_def keeps_genders_new
      split: option.splits if_splits)

lemma showCenteredTree_pure: "perform n t ShowTree = Done (t', out) \<Longrightarrow> t' = t"
  by (auto simp: andThen_Done_iff)

lemma perform_keeps:
  "perform n t c = Done (t', out) \<Longrightarrow> keeps_genders (mem t) (mem t')"
proof (cases c)
  case (CreateRoot a)
  assume "perform n t c = Done (t', out)"
  with CreateRoot show ?thesis
    by (auto split: prod.splits dest: createRootInteractive_keeps)
next
  case (AddMember a)
  assume "perform n t c = Done (t', out)"
  with AddMember show ?thesis by (auto dest: addMemberInteractive_keeps)
next
  case (MarkLate a)
  assume "perform n t c = Done (t', out)"
  with MarkLate show ?thesis by (auto dest: markLateInteractive_keeps)
next
  case ShowTree
  assume "perform n t c = Done (t', out)"
  with ShowTree show ?thesis by (auto simp: andThen_Done_iff)
next
  case ListAll
  assume "perform n t c = Done (t', out)"
  with ListAll show ?thesis by (auto simp: andThen_Done_iff)
next
  case InvalidChoice
  assume "perform n t c = Done (t', out)"
  with InvalidChoice show ?thesis by auto
qed

lemma run_loop_keeps:
  "run_loop n t cs = Done (t', out) \<Longrightarrow> keeps_genders (mem t) (mem t')"
proof (induction cs arbitrary: t out)
  case Nil
  then show ?case by simp
next
  case (Cons c cs)
  from Cons.prems obtain t1 o1 o2 where
    "perform n t c = Done (t1, o1)" "run_loop n t1 cs = Done (t', o2)"
    by (auto simp: andThen_Done_iff)
  with Cons.IH show ?case
    by (blast intro: keeps_genders_trans dest: perform_keeps)
qed

lemma tree_after_Some: "tree_after res = Some t \<Longrightarrow> \<exists>out. res = Done (t, out)"
  by (auto simp: tree_after_def split: outcome.splits)

text \<open>
  Claim C9. The constructor stores the gender \<open>M\<close> for the argument \<open>M\<close> or \<open>m\<close> and \<open>F\<close>
  for every other character. No choice of the menu changes the gender of a member that
  exists. So in every registry a run of the menu leaves, every member has the gender
  \<open>M\<close> or \<open>F\<close>.
\<close>
theorem gender_normalised:
  "(g = CHR ''M'' \<or> g = CHR ''m'' \<longrightarrow> gender (FamilyMember_ctor nm g a) = CHR ''M'') \<and>
   (g \<noteq> CHR ''M'' \<and> g \<noteq> CHR ''m'' \<longrightarrow> gender (FamilyMember_ctor nm g a) = CHR ''F'') \<and>
   (perform n t c = Done (t', out) \<longrightarrow>
      length (mem t) \<le> length (mem t') \<and>
      (\<forall>p<length (mem t). gender (mem t' ! p) = gender (mem t ! p))) \<and>
   (run n cs = Done (t'', out') \<longrightarrow>
      (\<forall>m\<in>set (mem t''). gender m = CHR ''M'' \<or> gender m = CHR ''F''))"
proof -
  have a: "length (mem t) \<le> length (mem t') \<and>
      (\<forall>p<length (mem t). gender (mem t' ! p) = gender (mem t ! p))"
    if "perform n t c = Done (t', out)"
    using perform_keeps[OF that] by (simp add: keeps_genders_def)
  have b: "\<forall>m\<in>set (mem t''). gender m = CHR ''M'' \<or> gender m = CHR ''F''"
    if "run n cs = Done (t'', out')"
  proof -
    from that obtain out0 where "run_loop n FamilyTree_ctor cs = Done (t'', out0)"
      by (auto simp: run_def andThen_Done_iff)
    then have "keeps_genders (mem FamilyTree_ctor) (mem t'')"
      by (rule run_loop_keeps)
    moreover have "genders_ok (mem FamilyTree_ctor)"
      by (simp add: genders_ok_def FamilyTree_ctor_def)
    ultimately have "genders_ok (mem t'')" by (rule keeps_genders_ok)
    then show ?thesis by (simp add: genders_ok_def)
  qed
  from a b show ?thesis by (simp add: FamilyMember_ctor_def)
qed

theorem gender_normalised_witness:
  "gender (FamilyMember_ctor ''Ann'' (CHR ''m'') True) = CHR ''M'' \<and>
   gender (FamilyMember_ctor ''Ann'' (CHR ''x'') True) = CHR ''F'' \<and>
   tree_after (run 10 carol_choices) = Some carol_tree \<and>
   map gender (mem carol_tree) = [CHR ''F'', CHR ''M'', CHR ''F'', CHR ''M''] \<and>
   tree_after (perform 10 carol_tree (MarkLate late_dave)) = Some dave_late_tree \<and>
   map gender (mem dave_late_tree) = map gender (mem carol_tree)"
proof -
  have r: "tree_after (run 10 carol_choices) = Some carol_tree"
    by code_simp
  then obtain out where run: "run 10 carol_choices = Done (carol_tree, out)"
    using tree_after_Some by blast
  have p: "tree_after (perform 10 carol_tree (MarkLate late_dave)) = Some dave_late_tree"
    by code_simp
  then obtain out' where step: "perform 10 carol_tree (MarkLate late_dave) = Done (dave_late_tree, out')"
    using tree_after_Some by blast
  have g: "map gender (mem carol_tree) = [CHR ''F'', CHR ''M'', CHR ''F'', CHR ''M'']"
    by (simp add: carol_tree_def)
  have "\<forall>p<length (mem carol_tree). gender (mem dave_late_tree ! p) = gender (mem carol_tree ! p)"
    using gender_normalised[of "CHR ''m''" "''Ann''" True 10 carol_tree "MarkLate late_dave"
        dave_late_tree out' carol_choices carol_tree out] step by blast
  moreover have "length (mem dave_late_tree) = length (mem carol_tree)"
    by (simp add: dave_late_tree_def)
  ultimately have same: "map gender (mem dave_late_tree) = map gender (mem carol_tree)"
    by (simp add: list_eq_iff_nth_eq)
  from gender_normalised[of "CHR ''m''" "''Ann''" True 10 carol_tree "MarkLate late_dave"
        dave_late_tree out' carol_choices carol_tree out]
    gender_normalised[of "CHR ''x''" "''Ann''" True 10 carol_tree "MarkLate late_dave"
        dave_late_tree out' carol_choices carol_tree out]
    r p g same show ?thesis by simp
qed

section \<open>Adding a member without parents\<close>

lemma sibling_chain_Some_iff:
  "sibling_chain (Suc n) h (Some c) = Done cs \<longleftrightarrow>
     c < length h \<and> (\<exists>rest. sibling_chain n h (nextSibling (h ! c)) = Done rest \<and> cs = c # rest)"
  by (auto simp: andThen_Done_iff deref_Done_iff)

lemma sibling_chain_valid:
  "sibling_chain n h q = Done cs \<Longrightarrow> \<forall>c\<in>set cs. c < length h"
proof (induction n arbitrary: q cs)
  case 0
  then show ?case by (cases q) auto
next
  case (Suc n)
  show ?case
  proof (cases q)
    case None
    with Suc.prems show ?thesis by simp
  next
    case (Some c)
    from Suc.prems[unfolded Some sibling_chain_Some_iff] obtain rest where
      "c < length h" "sibling_chain n h (nextSibling (h ! c)) = Done rest" "cs = c # rest"
      by blast
    with Suc.IH[of "nextSibling (h ! c)" rest] show ?thesis by simp
  qed
qed

lemma sibling_chain_mono:
  "sibling_chain n h q = Done cs \<Longrightarrow> n \<le> m \<Longrightarrow> sibling_chain m h q = Done cs"
proof (induction n arbitrary: m q cs)
  case 0
  then show ?case by (cases q) auto
next
  case (Suc n)
  show ?case
  proof (cases q)
    case None
    with Suc.prems show ?thesis by simp
  next
    case (Some c)
    from Suc.prems(2) obtain m' where m: "m = Suc m'" "n \<le> m'"
      by (cases m) auto
    from Suc.prems(1)[unfolded Some sibling_chain_Some_iff] obtain rest where
      "c < length h" "sibling_chain n h (nextSibling (h ! c)) = Done rest" "cs = c # rest"
      by blast
    with Suc.IH[OF _ m(2)] m Some show ?thesis
      by (simp add: sibling_chain_Some_iff del: sibling_chain.simps(3))
  qed
qed

lemma sibling_chain_suffix:
  "sibling_chain n h q = Done cs \<Longrightarrow> x \<in> set cs \<Longrightarrow>
   \<exists>pre suf. cs = pre @ x # suf \<and> sibling_chain n h (Some x) = Done (x # suf)"
proof (induction n arbitrary: q cs)
  case 0
  then show ?case by (cases q) auto
next
  case (Suc n)
  show ?case
  proof (cases q)
    case None
    with Suc.prems show ?thesis by simp
  next
    case (Some c)
    from Suc.prems(1)[unfolded Some sibling_chain_Some_iff] obtain rest where
      c: "c < length h" and rest: "sibling_chain n h (nextSibling (h ! c)) = Done rest"
      and cs: "cs = c # rest"
      by blast
    show ?thesis
    proof (cases "x = c")
      case True
      with Suc.prems(1) Some cs show ?thesis
        by (intro exI[of _ "[]"] exI[of _ rest]) (simp del: sibling_chain.simps(3))
    next
      case False
      with Suc.prems(2) cs have "x \<in> set rest" by simp
      from Suc.IH[OF rest this] obtain pre suf where
        "rest = pre @ x # suf" "sibling_chain n h (Some x) = Done (x # suf)"
        by blast
      with cs sibling_chain_mono[of n h "Some x" "x # suf" "Suc n"] show ?thesis
        by (intro exI[of _ "c # pre"] exI[of _ suf]) (simp del: sibling_chain.simps(3))
    qed
  qed
qed

lemma sibling_chain_distinct:
  "sibling_chain n h q = Done cs \<Longrightarrow> distinct cs"
proof (induction n arbitrary: q cs)
  case 0
  then show ?case by (cases q) auto
next
  case (Suc n)
  show ?case
  proof (cases q)
    case None
    with Suc.prems show ?thesis by simp
  next
    case (Some c)
    from Suc.prems(1)[unfolded Some sibling_chain_Some_iff] obtain rest where
      c: "c < length h" and rest: "sibling_chain n h (nextSibling (h ! c)) = Done rest"
      and cs: "cs = c # rest"
      by blast
    have "c \<notin> set rest"
    proof
      assume "c \<in> set rest"
      from sibling_chain_suffix[OF rest this] obtain pre suf where
        ps: "rest = pre @ c # suf" "sibling_chain n h (Some c) = Done (c # suf)"
        by blast
      from sibling_chain_mono[OF ps(2), of "Suc n"] Suc.prems(1) Some cs
      have "suf = rest" by (simp del: sibling_chain.simps(3))
      with ps(1) have "length rest = length pre + Suc (length rest)" by (metis length_append length_Cons)
      then show False by simp
    qed
    with Suc.IH[OF rest] cs show ?thesis by simp
  qed
qed

lemma sibling_chain_last:
  "sibling_chain n h (Some c) = Done cs \<Longrightarrow> cs \<noteq> [] \<and> lastSibling n h c = Done (last cs)"
proof (induction n arbitrary: c cs)
  case 0
  then show ?case by simp
next
  case (Suc n)
  from Suc.prems[unfolded sibling_chain_Some_iff] obtain rest where
    c: "c < length h" and rest: "sibling_chain n h (nextSibling (h ! c)) = Done rest"
    and cs: "cs = c # rest"
    by blast
  show ?case
  proof (cases "nextSibling (h ! c)")
    case None
    with rest cs c show ?thesis by (simp add: deref_valid)
  next
    case (Some s)
    with Suc.IH[of s rest] rest c cs show ?thesis by (simp add: deref_valid)
  qed
qed

lemma sibling_chain_frame:
  "sibling_chain n h q = Done cs \<Longrightarrow> length h \<le> length h' \<Longrightarrow>
   \<forall>c\<in>set cs. nextSibling (h' ! c) = nextSibling (h ! c) \<Longrightarrow>
   sibling_chain n h' q = Done cs"
proof (induction n arbitrary: q cs)
  case 0
  then show ?case by (cases q) auto
next
  case (Suc n)
  show ?case
  proof (cases q)
    case None
    with Suc.prems show ?thesis by simp
  next
    case (Some c)
    from Suc.prems(1)[unfolded Some sibling_chain_Some_iff] obtain rest where
      c: "c < length h" and rest: "sibling_chain n h (nextSibling (h ! c)) = Done rest"
      and cs: "cs = c # rest"
      by blast
    from Suc.IH[OF rest Suc.prems(2)] Suc.prems(3) cs
    have "sibling_chain n h' (nextSibling (h ! c)) = Done rest" by simp
    with Suc.prems(2,3) c cs Some show ?thesis
      by (simp add: sibling_chain_Some_iff del: sibling_chain.simps(3))
  qed
qed

lemma sibling_chain_append:
  "sibling_chain n h (Some c) = Done cs \<Longrightarrow> new < length h \<Longrightarrow> new \<notin> set cs \<Longrightarrow>
   nextSibling (h ! new) = None \<Longrightarrow>
   sibling_chain (Suc n) (h[last cs := (h ! last cs)\<lparr> nextSibling := Some new \<rparr>]) (Some c) =
     Done (cs @ [new])"
proof (induction n arbitrary: c cs)
  case 0
  then show ?case by simp
next
  case (Suc n)
  from Suc.prems(1)[unfolded sibling_chain_Some_iff] obtain rest where
    c: "c < length h" and rest: "sibling_chain n h (nextSibling (h ! c)) = Done rest"
    and cs: "cs = c # rest"
    by blast
  show ?case
  proof (cases "nextSibling (h ! c)")
    case None
    with rest cs have [simp]: "cs = [c]" by simp
    from Suc.prems(3) have "new \<noteq> c" by simp
    with c Suc.prems(2,4) show ?thesis
      by (simp add: sibling_chain_Some_iff nth_list_update del: sibling_chain.simps(3))
  next
    case (Some s)
    with rest have r: "sibling_chain n h (Some s) = Done rest" by simp
    then have ne: "rest \<noteq> []" using sibling_chain_last by blast
    from sibling_chain_distinct[OF Suc.prems(1)] cs ne have "c \<noteq> last rest"
      by (metis distinct.simps(2) last_in_set)
    moreover from Suc.prems(3) cs have "new \<notin> set rest" by simp
    ultimately show ?thesis
      using Suc.IH[OF r Suc.prems(2) _ Suc.prems(4)] c cs ne Some
      by (simp add: sibling_chain_Some_iff[of "Suc n"] nth_list_update del: sibling_chain.simps(3))
  qed
qed

lemma member_addChild_chain:
  assumes r: "r < length h0"
    and chain: "sibling_chain n h0 (firstChild (h0 ! r)) = Done cs"
    and m: "nextSibling m = None"
  shows "\<exists>h'. member_addChild n (h0 @ [m]) r (Some (length h0)) = Done h' \<and>
              length h' = Suc (length h0) \<and> h' ! length h0 = m \<and>
              sibling_chain (Suc n) h' (firstChild (h' ! r)) = Done (cs @ [length h0])"
proof (cases "firstChild (h0 ! r)")
  case None
  with chain have cs: "cs = []" by simp
  let ?h' = "(h0 @ [m])[r := ((h0 @ [m]) ! r)\<lparr> firstChild := Some (length h0) \<rparr>]"
  have "member_addChild n (h0 @ [m]) r (Some (length h0)) = Done ?h'"
    using r None by (simp add: member_addChild_def deref_valid nth_append)
  moreover have "?h' ! length h0 = m" using r by (simp add: nth_list_update nth_append)
  moreover have "sibling_chain (Suc n) ?h' (firstChild (?h' ! r)) = Done (cs @ [length h0])"
    using r m cs by (simp add: deref_valid nth_list_update nth_append)
  ultimately show ?thesis by simp
next
  case (Some fc)
  let ?h = "h0 @ [m]"
  let ?new = "length h0"
  from chain Some have c0: "sibling_chain n h0 (Some fc) = Done cs" by simp
  have valid: "\<forall>c\<in>set cs. c < length h0" using c0 by (rule sibling_chain_valid)
  have c1: "sibling_chain n ?h (Some fc) = Done cs"
    using c0 by (rule sibling_chain_frame) (use valid in \<open>simp_all add: nth_append\<close>)
  from sibling_chain_last[OF c1] have ne: "cs \<noteq> []" and last: "lastSibling n ?h fc = Done (last cs)"
    by simp_all
  from ne valid have l: "last cs < length h0" by simp
  let ?h' = "?h[last cs := (?h ! last cs)\<lparr> nextSibling := Some ?new \<rparr>]"
  have new: "?new \<notin> set cs" using valid by auto
  have "member_addChild n ?h r (Some ?new) = Done ?h'"
    using r Some last l by (simp add: member_addChild_def deref_valid nth_append)
  moreover have "?h' ! ?new = m" using l by (simp add: nth_list_update nth_append)
  moreover have "firstChild (?h' ! r) = Some fc"
    using r l Some by (simp add: nth_list_update nth_append)
  moreover have "sibling_chain (Suc n) ?h' (Some fc) = Done (cs @ [?new])"
    using c1 _ new by (rule sibling_chain_append) (use m in simp_all)
  ultimately show ?thesis by simp
qed

lemma resolve_parents_none:
  "\<not> specify a \<or> (parent_name (father_ans a) = [] \<and> parent_name (mother_ans a) = []) \<Longrightarrow>
   resolve_parents n t r a = Done (t, None, None, [])"
  by (auto simp: resolve_parents_def ask_parent_def)

text \<open>
  Claim C7. When a member is added and no parent is specified (the operator declines to
  specify parents, or leaves both names blank), under a root whose chain of children
  comes to an end: the new member is created with father and mother unset, it becomes
  the last entry of the chain of the root's first child and next siblings, and nothing
  else is attached to it; so the grouping puts it under the key without father and
  without mother.
\<close>
theorem unparented_member_under_root:
  assumes "root t = Some r" and "r < length (mem t)"
    and "new_name a \<noteq> []" and "findByName t (new_name a) = Done None"
    and "\<not> specify a \<or> (parent_name (father_ans a) = [] \<and> parent_name (mother_ans a) = [])"
    and "sibling_chain n (mem t) (firstChild (mem t ! r)) = Done cs"
  shows "\<exists>t'. addMemberInteractive n t a =
             Done (t', ''No parents specified; member attached under root for visibility.\<newline>'' @
                       ''Member '' @ [CHR 0x27] @ new_name a @ [CHR 0x27] @ '' added successfully.\<newline>'') \<and>
           root t' = root t \<and> memberPool t' = memberPool t @ [length (mem t)] \<and>
           length (mem t') = Suc (length (mem t)) \<and>
           mem t' ! length (mem t) = FamilyMember_ctor (new_name a) (new_gender a) (new_alive a) \<and>
           father (mem t' ! length (mem t)) = None \<and> mother (mem t' ! length (mem t)) = None \<and>
           sibling_chain (Suc n) (mem t') (firstChild (mem t' ! r)) = Done (cs @ [length (mem t)]) \<and>
           parent_key (mem t') (length (mem t)) = (None, None) \<and>
           buildFamilyPairsForMembers (mem t') [length (mem t)] = Done [root_unit (length (mem t))]"
proof -
  let ?m = "FamilyMember_ctor (new_name a) (new_gender a) (new_alive a)"
  let ?new = "length (mem t)"
  have "nextSibling ?m = None" by (simp add: FamilyMember_ctor_def)
  from member_addChild_chain[OF assms(2) assms(6) this] obtain h' where
    h': "member_addChild n (mem t @ [?m]) r (Some ?new) = Done h'"
    "length h' = Suc ?new" "h' ! ?new = ?m"
    "sibling_chain (Suc n) h' (firstChild (h' ! r)) = Done (cs @ [?new])"
    by blast
  let ?t' = "t\<lparr> mem := h', memberPool := memberPool t @ [?new] \<rparr>"
  have link: "link_member n t r a None None =
      Done (?t', ''No parents specified; member attached under root for visibility.\<newline>'' @
                       ''Member '' @ [CHR 0x27] @ new_name a @ [CHR 0x27] @ '' added successfully.\<newline>'')"
    using h'(1) by (simp add: link_member_def new_member_def poolAdd_def)
  have add: "addMemberInteractive n t a =
      Done (?t', ''No parents specified; member attached under root for visibility.\<newline>'' @
                       ''Member '' @ [CHR 0x27] @ new_name a @ [CHR 0x27] @ '' added successfully.\<newline>'')"
    using assms(1,3,4) resolve_parents_none[OF assms(5), of n t r] link
    by (simp add: addMemberInteractive_def)
  have fm: "father (h' ! ?new) = None" "mother (h' ! ?new) = None"
    using h'(3) by (simp_all add: FamilyMember_ctor_def)
  have build: "buildFamilyPairsForMembers h' [?new] = Done [root_unit ?new]"
    using h'(2) fm
    by (simp add: buildFamilyPairsForMembers_def deref_valid root_unit_def FamilyPair_ctor_def)
  show ?thesis
    apply (rule exI[of _ ?t'])
    using add h' fm build by (simp add: parent_key_def)
qed

theorem unparented_member_under_root_witness:
  "tree_after (addMemberInteractive 10 before_bob bob_answers) = Some carol_tree \<and>
   sibling_chain 11 (mem carol_tree) (firstChild (mem carol_tree ! 0)) = Done [1, 3] \<and>
   parent_key (mem carol_tree) 3 = (None, None) \<and>
   buildFamilyPairsForMembers (mem carol_tree) [3] = Done [root_unit 3]"
proof -
  have hyps: "root before_bob = Some 0" "0 < length (mem before_bob)" "new_name bob_answers \<noteq> []"
    "\<not> specify bob_answers \<or>
       (parent_name (father_ans bob_answers) = [] \<and> parent_name (mother_ans bob_answers) = [])"
    by (simp_all add: before_bob_def bob_answers_def)
  have find: "findByName before_bob (new_name bob_answers) = Done None"
    by code_simp
  have chain: "sibling_chain 10 (mem before_bob) (firstChild (mem before_bob ! 0)) = Done [1]"
    by code_simp
  have after: "tree_after (addMemberInteractive 10 before_bob bob_answers) = Some carol_tree"
    by code_simp
  have len: "length (mem before_bob) = 3"
    by (simp add: before_bob_def)
  from unparented_member_under_root[OF hyps(1,2,3) find hyps(4) chain] obtain t' out where
    t': "addMemberInteractive 10 before_bob bob_answers = Done (t', out)"
      "sibling_chain (Suc 10) (mem t') (firstChild (mem t' ! 0)) = Done ([1] @ [length (mem before_bob)])"
      "parent_key (mem t') (length (mem before_bob)) = (None, None)"
      "buildFamilyPairsForMembers (mem t') [length (mem before_bob)] =
         Done [root_unit (length (mem before_bob))]"
    by blast
  from t'(1) after have "t' = carol_tree" by (simp add: tree_after_def)
  with t' after len show ?thesis by simp
qed

section \<open>Termination of the generation walk\<close>

lemma closed_heap_nth:
  "closed_heap h \<Longrightarrow> p < length h \<Longrightarrow>
   valid_ptr h (father (h ! p)) \<and> valid_ptr h (mother (h ! p)) \<and>
   valid_ptr h (firstChild (h ! p)) \<and> valid_ptr h (nextSibling (h ! p))"
  by (simp add: closed_heap_def list_all_length)

lemma links_subset: "closed_heap h \<Longrightarrow> links h \<subseteq> {..<length h} \<times> {..<length h}"
  by (auto simp: links_def valid_ptr_def dest!: closed_heap_nth)

lemma finite_links: "closed_heap h \<Longrightarrow> finite (links h)"
  by (rule finite_subset[OF links_subset]) simp_all



























end
